theory Spec2Isabelle
  imports Main "HOL-Library.Word"
begin

section \<open>The subscriber of package sub\<close>

text \<open>
  The development embeds \<^verbatim>\<open>src/sub/subscriber.go\<close>: the constructor
  \<^verbatim>\<open>NewSubscriber\<close>, the registration \<^verbatim>\<open>SetHandler\<close>, and \<^verbatim>\<open>Subscribe\<close>
  with the goroutines it starts. The \<^verbatim>\<open>aws.Client\<close> is an interface: what its
  methods return is not fixed by this package, so every call result is chosen by the
  environment. The goroutines are run in interleaving: a schedule says which goroutine
  takes its next step, and every property is shown for all schedules.

  The model covers one call of \<^verbatim>\<open>Subscribe\<close>, with the registry no longer changed
  while it runs.
\<close>

subsection \<open>Values\<close>

text \<open>A non-nil Go \<^verbatim>\<open>error\<close> is its message; a nil error is \<open>None\<close>.\<close>

type_synonym error = string

text \<open>
  A Go call either returns or panics. The string of \<open>Panics\<close> is the panic value as
  \<^verbatim>\<open>fmt.Sprint\<close> prints it.
\<close>

datatype 'a outcome = Returns 'a | Panics string

definition nil_dereference :: string where
  "nil_dereference = ''runtime error: invalid memory address or nil pointer dereference''"

text \<open>
  \<^verbatim>\<open>Handler func(id string, message *string) error\<close>: a handler returns nil, returns
  an error, or panics (with a value that \<^verbatim>\<open>recover\<close> returns as non-nil).
\<close>

datatype hres = HNil | HErr error | HPanic string

type_synonym Handler = "string \<Rightarrow> string option \<Rightarrow> hres"

record HandlerOption =
  WaitTime :: "64 word"

record SubscriberOption =
  ConcurrencyMessageHandleLimit :: int

text \<open>
  The anonymous struct stored in \<^verbatim>\<open>handlers\<close>. A nil \<^verbatim>\<open>Handler\<close> is \<open>None\<close>. The
  option pointer stored here is never nil (\<^verbatim>\<open>SetHandler\<close> has dereferenced it), and
  the model keeps the value it points to at registration.
\<close>

record binding =
  handler :: "Handler option"
  opt :: HandlerOption

text \<open>A buffered channel \<^verbatim>\<open>make(chan int, n)\<close>: its capacity and its buffer.\<close>

record chan =
  cap :: nat
  buf :: "int list"

text \<open>The struct \<^verbatim>\<open>subscriber\<close>, without the client.\<close>

record subscriber =
  handlers :: "string \<rightharpoonup> binding"
  soption :: SubscriberOption
  semaphore :: chan

subsection \<open>NewSubscriber and SetHandler\<close>

text \<open>
  \<^verbatim>\<open>NewSubscriber(client, option)\<close>: a nil option panics at the field read; a limit
  below 1 returns the error; otherwise the struct with an empty registry and an empty
  semaphore of that capacity. The limit is only compared with 1 and passed to
  \<^verbatim>\<open>make\<close>, so Go's \<^verbatim>\<open>int\<close> is an \<open>int\<close> here, and the allocation of the channel
  is taken to succeed.
\<close>

definition NewSubscriber :: "SubscriberOption option \<Rightarrow> (error + subscriber) outcome" where
  "NewSubscriber option =
     (case option of
        None \<Rightarrow> Panics nil_dereference
      | Some o' \<Rightarrow>
          if ConcurrencyMessageHandleLimit o' < 1
          then Returns (Inl ''set 1 or more for ConcurrencyMessageHandleLimit'')
          else Returns (Inr \<lparr>handlers = Map.empty, soption = o',
                 semaphore = \<lparr>cap = nat (ConcurrencyMessageHandleLimit o'), buf = []\<rparr>\<rparr>))"

text \<open>
  \<^verbatim>\<open>SetHandler(queueName, handler, option)\<close> mutates the receiver: the model returns
  the receiver after the call together with the returned error.
\<close>

definition SetHandler ::
  "subscriber \<Rightarrow> string \<Rightarrow> Handler option \<Rightarrow> HandlerOption option \<Rightarrow> (subscriber \<times> error option) outcome"
where
  "SetHandler t queueName h option =
     (case option of
        None \<Rightarrow> Panics nil_dereference
      | Some o' \<Rightarrow>
          if sint (WaitTime o') < 0
          then Returns (t, Some ''set 0 or more for WaitTime'')
          else Returns (t\<lparr>handlers := (handlers t)(queueName \<mapsto> \<lparr>handler = h, opt = o'\<rparr>)\<rparr>, None))"

subsection \<open>What Subscribe works with\<close>

text \<open>
  \<^verbatim>\<open>aws.ReceiveMessage\<close>; the \<^verbatim>\<open>*string\<close> body may be nil. The entries of a
  batch are the structs themselves: the client builds every entry with \<^verbatim>\<open>&ReceiveMessage{...}\<close>.
\<close>

record ReceiveMessage =
  MessageID :: string
  ReceiptHandle :: string
  Body :: "string option"

text \<open>
  The goroutines of one \<^verbatim>\<open>Subscribe\<close> call: the one started first, which ranges over
  the registry; one poll loop for every queue it reaches, numbered in the order they are
  started; one dispatch goroutine for every message, numbered likewise.
\<close>

datatype goroutine = Spawner | Poll nat | Dispatch nat

text \<open>
  The calls on the client, with the arguments passed and the result the client gave, and
  the one receive of \<^verbatim>\<open>Subscribe\<close> on \<^verbatim>\<open>chFatal\<close>, with the sender. A result
  \<open>Returns (Inl err)\<close> or \<open>Returns (Some err)\<close> is a non-nil error.
  \<^verbatim>\<open>ReceiveMessages\<close> returning a nil result with a nil error makes the poll loop panic
  at \<^verbatim>\<open>res.ReceiveMessages\<close>: it is among the \<open>Panics\<close> results.
\<close>

datatype event =
    GetQueueID string "(error + string) outcome"
  | ReceiveMessages nat string "(error + ReceiveMessage list) outcome"
  | ReportFailureMessage nat string string "64 word" "error option outcome"
  | ReportSuccessMessage nat string string "error option outcome"
  | Fatal goroutine error

text \<open>
  Where the first goroutine stands: in the \<^verbatim>\<open>range\<close> with the names still to come,
  blocked on \<^verbatim>\<open>chFatal <- err\<close>, blocked on the send of its deferred function after a
  recovered panic, or returned after its send.
\<close>

datatype spc = SpRange "string list" | SpSend error | SpRecover string | SpDone

text \<open>
  Where a poll loop stands: before \<^verbatim>\<open>ReceiveMessages\<close>; in the \<^verbatim>\<open>range\<close> over the
  batch with its WaitGroup and the messages still to come (with none left it stands at
  \<^verbatim>\<open>wgMessage.Wait()\<close>); blocked on \<^verbatim>\<open>chFatal <- err\<close>; returned.
\<close>

datatype ppc = PReceive | PRange nat "ReceiveMessage list" | PSend error | PDone

text \<open>
  Where a dispatch goroutine stands: before \<^verbatim>\<open>t.semaphore <- 1\<close>; at the handler
  call; at one of the two report calls; blocked on \<^verbatim>\<open>chFatal <- err\<close>; in the deferred
  function blocked on the send of a recovered panic; at \<^verbatim>\<open>wgMessage.Done()\<close>; at
  \<^verbatim>\<open><-t.semaphore\<close>; finished.
\<close>

datatype tpc =
    TAcquire | THandler | TReportFailure | TReportSuccess
  | TSend error | TRecover string | TDone | TRelease | TExit

text \<open>
  A poll loop's parameters \<^verbatim>\<open>queueName\<close>, \<^verbatim>\<open>queueID\<close>, \<^verbatim>\<open>handler\<close>, and the
  variable \<^verbatim>\<open>id\<close> of the enclosing \<^verbatim>\<open>range\<close> body that its closure captures.
\<close>

record poll =
  queueName :: string
  queueID :: string
  p_handler :: binding
  p_id :: string
  p_pc :: ppc

text \<open>
  What a dispatch closure holds: \<^verbatim>\<open>handler\<close>, \<^verbatim>\<open>id\<close>, its parameter \<^verbatim>\<open>msg\<close> and
  the address of \<^verbatim>\<open>wgMessage\<close>; \<open>t_owner\<close> is the poll loop that started it.
\<close>

record task =
  t_owner :: nat
  t_handler :: binding
  t_id :: string
  t_msg :: ReceiveMessage
  t_wg :: nat
  t_pc :: tpc

text \<open>\<^verbatim>\<open>return <-chFatal\<close>: blocked in the receive, or returned with the value received.\<close>

datatype caller = Receiving | Returned "error option"

text \<open>
  The state of one \<^verbatim>\<open>Subscribe\<close> call. \<open>wgs\<close> is the store of WaitGroup counters,
  one cell for every \<^verbatim>\<open>&sync.WaitGroup{}\<close>; \<open>crashed\<close> is set by a panic that no
  deferred function recovers, which ends the process; \<open>trace\<close> lists the events in the
  order they happened.
\<close>

record state =
  recv :: subscriber
  caller :: caller
  spawner :: spc
  polls :: "poll list"
  tasks :: "task list"
  wgs :: "int list"
  crashed :: bool
  trace :: "event list"

text \<open>
  \<^verbatim>\<open>Subscribe\<close> starts the first goroutine and blocks. \<open>order\<close> is the order in
  which \<^verbatim>\<open>range t.handlers\<close> will yield the names: Go leaves it open, so it is a
  parameter, and \<open>iteration_order\<close> says that it lists every registered name once.
\<close>

definition Subscribe :: "subscriber \<Rightarrow> string list \<Rightarrow> state" where
  "Subscribe t order =
     \<lparr>recv = t, caller = Receiving, spawner = SpRange order, polls = [], tasks = [],
      wgs = [], crashed = False, trace = []\<rparr>"

definition iteration_order :: "subscriber \<Rightarrow> string list \<Rightarrow> bool" where
  "iteration_order t order \<longleftrightarrow> distinct order \<and> set order = dom (handlers t)"

subsection \<open>The steps of the goroutines\<close>

text \<open>
  Each function is one step of one goroutine; \<open>None\<close> means the goroutine does not
  stand at that statement, or is blocked there.

  Lines 72 to 125, one round of the \<^verbatim>\<open>range\<close>: \<^verbatim>\<open>GetQueueID\<close> with result \<open>r\<close>;
  on an error the send on \<^verbatim>\<open>chFatal\<close> is pending; on a panic the deferred function
  recovers it and its send is pending; otherwise the poll loop is started. The
  \<^verbatim>\<open>range\<close> yields registered names only, so there is no step for any other name.
\<close>

definition resolve :: "(error + string) outcome \<Rightarrow> state \<Rightarrow> state option" where
  "resolve r s =
     (case spawner s of
        SpRange (name # rest) \<Rightarrow>
          (case handlers (recv s) name of
             None \<Rightarrow> None
           | Some h \<Rightarrow>
               (case r of
                  Panics info \<Rightarrow>
                    Some (s\<lparr>spawner := SpRecover info, trace := trace s @ [GetQueueID name r]\<rparr>)
                | Returns (Inl err) \<Rightarrow>
                    Some (s\<lparr>spawner := SpSend err, trace := trace s @ [GetQueueID name r]\<rparr>)
                | Returns (Inr id') \<Rightarrow>
                    Some (s\<lparr>spawner := SpRange rest,
                            polls := polls s @ [\<lparr>queueName = name, queueID = id', p_handler = h,
                                                p_id = id', p_pc = PReceive\<rparr>],
                            trace := trace s @ [GetQueueID name r]\<rparr>)))
      | _ \<Rightarrow> None)"

text \<open>
  Lines 84 to 92: \<^verbatim>\<open>ReceiveMessages\<close> with result \<open>r\<close>. The poll loop has no deferred
  function, so a panic ends the process. With a batch, a new WaitGroup is allocated.
\<close>

definition receive :: "nat \<Rightarrow> (error + ReceiveMessage list) outcome \<Rightarrow> state \<Rightarrow> state option" where
  "receive i r s =
     (if i < length (polls s) then
        (case p_pc (polls s ! i) of
           PReceive \<Rightarrow>
             (case r of
                Panics info \<Rightarrow>
                  Some (s\<lparr>crashed := True,
                          trace := trace s @ [ReceiveMessages i (queueID (polls s ! i)) r]\<rparr>)
              | Returns (Inl err) \<Rightarrow>
                  Some (s\<lparr>polls := (polls s)[i := (polls s ! i)\<lparr>p_pc := PSend err\<rparr>],
                          trace := trace s @ [ReceiveMessages i (queueID (polls s ! i)) r]\<rparr>)
              | Returns (Inr msgs) \<Rightarrow>
                  Some (s\<lparr>polls := (polls s)[i := (polls s ! i)\<lparr>p_pc := PRange (length (wgs s)) msgs\<rparr>],
                          wgs := wgs s @ [0],
                          trace := trace s @ [ReceiveMessages i (queueID (polls s ! i)) r]\<rparr>))
         | _ \<Rightarrow> None)
      else None)"

text \<open>
  Lines 93 to 95 and 121: \<^verbatim>\<open>wgMessage.Add(1)\<close> and \<^verbatim>\<open>go func(msg)\<close> for the next
  message. The WaitGroup is the one allocated for this batch (\<open>w < length (wgs s)\<close> holds
  in every run).
\<close>

definition dispatch :: "nat \<Rightarrow> state \<Rightarrow> state option" where
  "dispatch i s =
     (if i < length (polls s) then
        (case p_pc (polls s ! i) of
           PRange w (msg # rest) \<Rightarrow>
             if w < length (wgs s) then
               Some (s\<lparr>polls := (polls s)[i := (polls s ! i)\<lparr>p_pc := PRange w rest\<rparr>],
                       wgs := (wgs s)[w := wgs s ! w + 1],
                       tasks := tasks s @ [\<lparr>t_owner = i, t_handler = p_handler (polls s ! i),
                                            t_id = p_id (polls s ! i), t_msg = msg, t_wg = w,
                                            t_pc = TAcquire\<rparr>]\<rparr>)
             else None
         | _ \<Rightarrow> None)
      else None)"

text \<open>Line 123: \<^verbatim>\<open>wgMessage.Wait()\<close> returns once the counter is 0.\<close>

definition wait :: "nat \<Rightarrow> state \<Rightarrow> state option" where
  "wait i s =
     (if i < length (polls s) then
        (case p_pc (polls s ! i) of
           PRange w [] \<Rightarrow>
             if w < length (wgs s) \<and> wgs s ! w = 0
             then Some (s\<lparr>polls := (polls s)[i := (polls s ! i)\<lparr>p_pc := PReceive\<rparr>]\<rparr>)
             else None
         | _ \<Rightarrow> None)
      else None)"

text \<open>Line 103: \<^verbatim>\<open>t.semaphore <- 1\<close> goes through while the buffer has room.\<close>

definition acquire :: "nat \<Rightarrow> state \<Rightarrow> state option" where
  "acquire j s =
     (if j < length (tasks s) \<and> t_pc (tasks s ! j) = TAcquire
         \<and> length (buf (semaphore (recv s))) < cap (semaphore (recv s))
      then Some (s\<lparr>recv := (recv s)\<lparr>semaphore := (semaphore (recv s))\<lparr>buf := buf (semaphore (recv s)) @ [1]\<rparr>\<rparr>,
                   tasks := (tasks s)[j := (tasks s ! j)\<lparr>t_pc := THandler\<rparr>]\<rparr>)
      else None)"

text \<open>
  Line 105: what \<^verbatim>\<open>handler.handler(msg.MessageID, msg.Body)\<close> does. Calling a nil
  function value panics.
\<close>

definition call_handler :: "task \<Rightarrow> hres" where
  "call_handler tk =
     (case handler (t_handler tk) of
        None \<Rightarrow> HPanic nil_dereference
      | Some h \<Rightarrow> h (MessageID (t_msg tk)) (Body (t_msg tk)))"

definition after_handler :: "hres \<Rightarrow> tpc" where
  "after_handler r = (case r of HNil \<Rightarrow> TReportSuccess | HErr err \<Rightarrow> TReportFailure | HPanic info \<Rightarrow> TRecover info)"

definition invoke :: "nat \<Rightarrow> state \<Rightarrow> state option" where
  "invoke j s =
     (if j < length (tasks s) \<and> t_pc (tasks s ! j) = THandler
      then Some (s\<lparr>tasks := (tasks s)[j := (tasks s ! j)\<lparr>t_pc := after_handler (call_handler (tasks s ! j))\<rparr>]\<rparr>)
      else None)"

text \<open>
  Lines 106 to 120: the report call with result \<open>r\<close>. A nil error falls through to the
  deferred function; an error is sent on \<^verbatim>\<open>chFatal\<close> before the return; a panic is
  recovered by the deferred function.
\<close>

definition after_report :: "error option outcome \<Rightarrow> tpc" where
  "after_report r = (case r of Returns None \<Rightarrow> TDone | Returns (Some err) \<Rightarrow> TSend err | Panics info \<Rightarrow> TRecover info)"

definition report :: "nat \<Rightarrow> error option outcome \<Rightarrow> state \<Rightarrow> state option" where
  "report j r s =
     (if j < length (tasks s) then
        (case t_pc (tasks s ! j) of
           TReportFailure \<Rightarrow>
             Some (s\<lparr>tasks := (tasks s)[j := (tasks s ! j)\<lparr>t_pc := after_report r\<rparr>],
                     trace := trace s @ [ReportFailureMessage j (t_id (tasks s ! j))
                        (ReceiptHandle (t_msg (tasks s ! j)))
                        (WaitTime (opt (t_handler (tasks s ! j)))) r]\<rparr>)
         | TReportSuccess \<Rightarrow>
             Some (s\<lparr>tasks := (tasks s)[j := (tasks s ! j)\<lparr>t_pc := after_report r\<rparr>],
                     trace := trace s @ [ReportSuccessMessage j (t_id (tasks s ! j))
                        (ReceiptHandle (t_msg (tasks s ! j))) r]\<rparr>)
         | _ \<Rightarrow> None)
      else None)"

text \<open>
  Line 100: \<^verbatim>\<open>wgMessage.Done()\<close>. A counter that would go below 0 makes
  \<^verbatim>\<open>Done\<close> panic inside the deferred function, which nothing recovers.
\<close>

definition wg_Done :: "nat \<Rightarrow> state \<Rightarrow> state option" where
  "wg_Done j s =
     (if j < length (tasks s) \<and> t_pc (tasks s ! j) = TDone \<and> t_wg (tasks s ! j) < length (wgs s) then
        (if wgs s ! t_wg (tasks s ! j) - 1 < 0 then Some (s\<lparr>crashed := True\<rparr>)
         else Some (s\<lparr>wgs := (wgs s)[t_wg (tasks s ! j) := wgs s ! t_wg (tasks s ! j) - 1],
                      tasks := (tasks s)[j := (tasks s ! j)\<lparr>t_pc := TRelease\<rparr>]\<rparr>))
      else None)"

text \<open>Line 101: \<^verbatim>\<open><-t.semaphore\<close> goes through while the buffer is not empty.\<close>

definition release :: "nat \<Rightarrow> state \<Rightarrow> state option" where
  "release j s =
     (if j < length (tasks s) \<and> t_pc (tasks s ! j) = TRelease \<and> buf (semaphore (recv s)) \<noteq> []
      then Some (s\<lparr>recv := (recv s)\<lparr>semaphore := (semaphore (recv s))\<lparr>buf := tl (buf (semaphore (recv s)))\<rparr>\<rparr>,
                   tasks := (tasks s)[j := (tasks s ! j)\<lparr>t_pc := TExit\<rparr>]\<rparr>)
      else None)"

text \<open>
  \<^verbatim>\<open>chFatal\<close> is unbuffered: a send goes through only together with the receive of
  line 129, which happens once. \<open>pending g s\<close> is the value goroutine \<open>g\<close> is blocked
  sending, \<open>sent g s\<close> is \<open>s\<close> with that goroutine past its send.
\<close>

definition pending :: "goroutine \<Rightarrow> state \<Rightarrow> error option" where
  "pending g s =
     (case g of
        Spawner \<Rightarrow>
          (case spawner s of SpSend err \<Rightarrow> Some err | SpRecover info \<Rightarrow> Some info | _ \<Rightarrow> None)
      | Poll i \<Rightarrow>
          (if i < length (polls s)
           then (case p_pc (polls s ! i) of PSend err \<Rightarrow> Some err | _ \<Rightarrow> None) else None)
      | Dispatch j \<Rightarrow>
          (if j < length (tasks s)
           then (case t_pc (tasks s ! j) of TSend err \<Rightarrow> Some err | TRecover info \<Rightarrow> Some info | _ \<Rightarrow> None)
           else None))"

definition sent :: "goroutine \<Rightarrow> state \<Rightarrow> state" where
  "sent g s =
     (case g of
        Spawner \<Rightarrow> s\<lparr>spawner := SpDone\<rparr>
      | Poll i \<Rightarrow> s\<lparr>polls := (polls s)[i := (polls s ! i)\<lparr>p_pc := PDone\<rparr>]\<rparr>
      | Dispatch j \<Rightarrow> s\<lparr>tasks := (tasks s)[j := (tasks s ! j)\<lparr>t_pc := TDone\<rparr>]\<rparr>)"

definition deliver :: "goroutine \<Rightarrow> state \<Rightarrow> state option" where
  "deliver g s =
     (case pending g s of
        None \<Rightarrow> None
      | Some err \<Rightarrow>
          if caller s = Receiving
          then Some ((sent g s)\<lparr>caller := Returned (Some err), trace := trace s @ [Fatal g err]\<rparr>)
          else None)"

text \<open>
  A schedule is a list of actions: which goroutine moves, and what the client answers.
  After a crash nothing moves.
\<close>

datatype action =
    Resolve "(error + string) outcome"
  | Receive nat "(error + ReceiveMessage list) outcome"
  | Go nat
  | Wait nat
  | Acquire nat
  | Invoke nat
  | Report nat "error option outcome"
  | Done nat
  | Release nat
  | Deliver goroutine

definition step :: "action \<Rightarrow> state \<Rightarrow> state option" where
  "step a s =
     (if crashed s then None
      else (case a of
              Resolve r \<Rightarrow> resolve r s
            | Receive i r \<Rightarrow> receive i r s
            | Go i \<Rightarrow> dispatch i s
            | Wait i \<Rightarrow> wait i s
            | Acquire j \<Rightarrow> acquire j s
            | Invoke j \<Rightarrow> invoke j s
            | Report j r \<Rightarrow> report j r s
            | Done j \<Rightarrow> wg_Done j s
            | Release j \<Rightarrow> release j s
            | Deliver g \<Rightarrow> deliver g s))"

fun run :: "action list \<Rightarrow> state \<Rightarrow> state option" where
  "run [] s = Some s"
| "run (a # as) s = (case step a s of None \<Rightarrow> None | Some s' \<Rightarrow> run as s')"

subsection \<open>Notions used in the properties\<close>

text \<open>
  A dispatch goroutine holds a permit from its send on the semaphore until its receive
  from it. \<open>executing\<close> counts the goroutines that stand at the handler call.
\<close>

definition holding :: "task \<Rightarrow> bool" where
  "holding tk \<longleftrightarrow> t_pc tk \<noteq> TAcquire \<and> t_pc tk \<noteq> TExit"

definition executing :: "state \<Rightarrow> nat" where
  "executing s = length (filter (\<lambda>tk. t_pc tk = THandler) (tasks s))"

definition permits :: "state \<Rightarrow> bool" where
  "permits s \<longleftrightarrow>
     length (buf (semaphore (recv s))) = length (filter holding (tasks s))
     \<and> length (buf (semaphore (recv s))) \<le> cap (semaphore (recv s))"

text \<open>
  The projections of the trace. Each of them collects, in order, one kind of event: the
  results of \<^verbatim>\<open>GetQueueID\<close> by name; the \<^verbatim>\<open>QueueID\<close> arguments and the batches of
  the \<^verbatim>\<open>ReceiveMessages\<close> calls of one poll loop; the report calls of one dispatch
  goroutine, their arguments apart from their results; the values received from
  \<^verbatim>\<open>chFatal\<close> with their senders.
\<close>

definition lookups :: "event list \<Rightarrow> (string \<times> (error + string) outcome) list" where
  "lookups tr = concat (map (\<lambda>ev. case ev of GetQueueID n r \<Rightarrow> [(n, r)] | _ \<Rightarrow> []) tr)"

definition resolutions :: "string \<Rightarrow> event list \<Rightarrow> (error + string) outcome list" where
  "resolutions name tr = map snd (filter (\<lambda>x. fst x = name) (lookups tr))"

definition receive_ids :: "nat \<Rightarrow> event list \<Rightarrow> string list" where
  "receive_ids i tr =
     concat (map (\<lambda>ev. case ev of ReceiveMessages k q r \<Rightarrow> if k = i then [q] else [] | _ \<Rightarrow> []) tr)"

definition fetched :: "nat \<Rightarrow> event list \<Rightarrow> ReceiveMessage list" where
  "fetched i tr =
     concat (map (\<lambda>ev. case ev of
        ReceiveMessages k q r \<Rightarrow>
          (case r of Returns (Inr msgs) \<Rightarrow> if k = i then msgs else [] | _ \<Rightarrow> [])
      | _ \<Rightarrow> []) tr)"

datatype call = FailureCall string string "64 word" | SuccessCall string string

definition report_calls :: "nat \<Rightarrow> event list \<Rightarrow> call list" where
  "report_calls j tr =
     concat (map (\<lambda>ev. case ev of
        ReportFailureMessage k q h w r \<Rightarrow> if k = j then [FailureCall q h w] else []
      | ReportSuccessMessage k q h r \<Rightarrow> if k = j then [SuccessCall q h] else []
      | _ \<Rightarrow> []) tr)"

definition report_results :: "nat \<Rightarrow> event list \<Rightarrow> error option outcome list" where
  "report_results j tr =
     concat (map (\<lambda>ev. case ev of
        ReportFailureMessage k q h w r \<Rightarrow> if k = j then [r] else []
      | ReportSuccessMessage k q h r \<Rightarrow> if k = j then [r] else []
      | _ \<Rightarrow> []) tr)"

definition fatals :: "event list \<Rightarrow> (goroutine \<times> error) list" where
  "fatals tr = concat (map (\<lambda>ev. case ev of Fatal g e \<Rightarrow> [(g, e)] | _ \<Rightarrow> []) tr)"

definition call_queue :: "call \<Rightarrow> string" where
  "call_queue c = (case c of FailureCall q h w \<Rightarrow> q | SuccessCall q h \<Rightarrow> q)"

text \<open>
  The errors and panic values that the client calls produced: those of \<^verbatim>\<open>GetQueueID\<close>,
  those of the \<^verbatim>\<open>ReceiveMessages\<close> calls of one poll loop, those of the report calls
  of one dispatch goroutine. \<open>origin s g e\<close>: the value \<open>e\<close> that goroutine \<open>g\<close> sent is
  such a failure of a call that \<open>g\<close> made, or the value of a panic of the handler that \<open>g\<close>
  called.
\<close>

definition resolve_failures :: "event list \<Rightarrow> string list" where
  "resolve_failures tr =
     concat (map (\<lambda>ev. case ev of
        GetQueueID n r \<Rightarrow>
          (case r of Returns (Inl err) \<Rightarrow> [err] | Returns (Inr id') \<Rightarrow> [] | Panics info \<Rightarrow> [info])
      | _ \<Rightarrow> []) tr)"

definition receive_errors :: "nat \<Rightarrow> event list \<Rightarrow> error list" where
  "receive_errors i tr =
     concat (map (\<lambda>ev. case ev of
        ReceiveMessages k q r \<Rightarrow>
          (case r of Returns (Inl err) \<Rightarrow> if k = i then [err] else [] | _ \<Rightarrow> [])
      | _ \<Rightarrow> []) tr)"

definition report_failures :: "nat \<Rightarrow> event list \<Rightarrow> string list" where
  "report_failures j tr =
     concat (map (\<lambda>r. case r of Returns None \<Rightarrow> [] | Returns (Some err) \<Rightarrow> [err] | Panics info \<Rightarrow> [info])
       (report_results j tr))"

definition origin :: "state \<Rightarrow> goroutine \<Rightarrow> error \<Rightarrow> bool" where
  "origin s g e =
     (case g of
        Spawner \<Rightarrow> e \<in> set (resolve_failures (trace s))
      | Poll i \<Rightarrow> e \<in> set (receive_errors i (trace s))
      | Dispatch j \<Rightarrow>
          j < length (tasks s)
          \<and> (call_handler (tasks s ! j) = HPanic e \<or> e \<in> set (report_failures j (trace s))))"

text \<open>
  \<open>returns_first\<close> relates the values received from \<^verbatim>\<open>chFatal\<close> to the caller of
  \<^verbatim>\<open>Subscribe\<close>: with none received it is blocked; with one received it has returned
  that error, whose origin is a failed call or a recovered panic; there is never a second.
\<close>

fun returns_first :: "(goroutine \<times> error) list \<Rightarrow> state \<Rightarrow> bool" where
  "returns_first [] s \<longleftrightarrow> caller s = Receiving"
| "returns_first [(g, e)] s \<longleftrightarrow> caller s = Returned (Some e) \<and> origin s g e"
| "returns_first (x # y # zs) s \<longleftrightarrow> False"

definition first_fatal :: "state \<Rightarrow> bool" where
  "first_fatal s \<longleftrightarrow> returns_first (fatals (trace s)) s"

text \<open>
  The report call that a dispatch goroutine has to make, from what its handler returns;
  the positions before the report call; the handler call that panics.
\<close>

definition expected_calls :: "task \<Rightarrow> call list" where
  "expected_calls tk =
     (case call_handler tk of
        HNil \<Rightarrow> [SuccessCall (t_id tk) (ReceiptHandle (t_msg tk))]
      | HErr err \<Rightarrow> [FailureCall (t_id tk) (ReceiptHandle (t_msg tk)) (WaitTime (opt (t_handler tk)))]
      | HPanic info \<Rightarrow> [])"

definition before_report :: "tpc \<Rightarrow> bool" where
  "before_report pc \<longleftrightarrow> pc = TAcquire \<or> pc = THandler \<or> pc = TReportFailure \<or> pc = TReportSuccess"

definition handler_panicked :: "task \<Rightarrow> bool" where
  "handler_panicked tk \<longleftrightarrow> (case call_handler tk of HPanic info \<Rightarrow> True | _ \<Rightarrow> False)"

text \<open>
  A dispatch goroutine is settled once it is past \<^verbatim>\<open>wgMessage.Done()\<close>. It has
  concluded once its report call has returned or a value it sent on \<^verbatim>\<open>chFatal\<close> has
  been received. \<open>dispatched i\<close> lists the messages of the dispatch goroutines that poll
  loop \<open>i\<close> started, \<open>remaining\<close> the messages of the current batch that a poll loop
  has not dispatched yet.
\<close>

definition settled :: "task \<Rightarrow> bool" where
  "settled tk \<longleftrightarrow> t_pc tk = TRelease \<or> t_pc tk = TExit"

definition waiting_on :: "nat \<Rightarrow> task \<Rightarrow> bool" where
  "waiting_on w tk \<longleftrightarrow> t_wg tk = w \<and> \<not> settled tk"

definition returned_reports :: "nat \<Rightarrow> event list \<Rightarrow> error option outcome list" where
  "returned_reports j tr =
     filter (\<lambda>r. case r of Returns x \<Rightarrow> True | Panics info \<Rightarrow> False) (report_results j tr)"

definition concluded :: "nat \<Rightarrow> event list \<Rightarrow> bool" where
  "concluded j tr \<longleftrightarrow> returned_reports j tr \<noteq> [] \<or> Dispatch j \<in> set (map fst (fatals tr))"

definition past_send :: "tpc \<Rightarrow> bool" where
  "past_send pc \<longleftrightarrow> pc = TDone \<or> pc = TRelease \<or> pc = TExit"

definition dispatched :: "nat \<Rightarrow> task list \<Rightarrow> ReceiveMessage list" where
  "dispatched i ts = map t_msg (filter (\<lambda>tk. t_owner tk = i) ts)"

definition remaining :: "poll \<Rightarrow> ReceiveMessage list" where
  "remaining p = (case p_pc p of PRange w ms \<Rightarrow> ms | _ \<Rightarrow> [])"

definition started :: "poll list \<Rightarrow> (string \<times> (error + string) outcome) list" where
  "started ps = map (\<lambda>p. (queueName p, Returns (Inr (queueID p)))) ps"

subsection \<open>Invariants\<close>

text \<open>
  \<open>wired\<close>: the closures hold what the \<^verbatim>\<open>range\<close> body had: a poll loop its queue's
  identifier and the binding registered under its queue's name, a dispatch goroutine the
  binding and identifier of the poll loop that started it; the WaitGroup addresses are
  allocated.
\<close>

definition wired :: "state \<Rightarrow> bool" where
  "wired s \<longleftrightarrow>
     (\<forall>i<length (polls s).
        p_id (polls s ! i) = queueID (polls s ! i)
        \<and> handlers (recv s) (queueName (polls s ! i)) = Some (p_handler (polls s ! i))
        \<and> (\<forall>w ms. p_pc (polls s ! i) = PRange w ms \<longrightarrow> w < length (wgs s)))
     \<and> (\<forall>j<length (tasks s).
        t_owner (tasks s ! j) < length (polls s)
        \<and> t_wg (tasks s ! j) < length (wgs s)
        \<and> t_handler (tasks s ! j) = p_handler (polls s ! t_owner (tasks s ! j))
        \<and> t_id (tasks s ! j) = p_id (polls s ! t_owner (tasks s ! j)))"

text \<open>
  \<open>joined\<close>: every WaitGroup counter is the number of its dispatch goroutines that
  are not settled, and the poll loop of such a goroutine stands in the \<^verbatim>\<open>range\<close> or at
  the \<^verbatim>\<open>Wait\<close> of that WaitGroup.
\<close>

definition joined :: "state \<Rightarrow> bool" where
  "joined s \<longleftrightarrow>
     (\<forall>w<length (wgs s). wgs s ! w = int (length (filter (waiting_on w) (tasks s))))
     \<and> (\<forall>j<length (tasks s). \<not> settled (tasks s ! j) \<longrightarrow>
           (\<exists>ms. p_pc (polls s ! t_owner (tasks s ! j)) = PRange (t_wg (tasks s ! j)) ms))"

text \<open>
  \<open>accounted\<close>: what a dispatch goroutine has called on the client so far, by where it
  stands.
\<close>

definition task_ok :: "nat \<Rightarrow> task \<Rightarrow> event list \<Rightarrow> bool" where
  "task_ok j tk tr \<longleftrightarrow>
     (case t_pc tk of
        TAcquire \<Rightarrow> report_calls j tr = [] \<and> report_results j tr = []
      | THandler \<Rightarrow> report_calls j tr = [] \<and> report_results j tr = []
      | TReportFailure \<Rightarrow> report_calls j tr = [] \<and> report_results j tr = []
           \<and> (case call_handler tk of HErr err \<Rightarrow> True | _ \<Rightarrow> False)
      | TReportSuccess \<Rightarrow> report_calls j tr = [] \<and> report_results j tr = []
           \<and> call_handler tk = HNil
      | TSend err \<Rightarrow> \<not> handler_panicked tk \<and> report_calls j tr = expected_calls tk
           \<and> report_results j tr = [Returns (Some err)]
      | TRecover info \<Rightarrow>
          (if handler_panicked tk
           then call_handler tk = HPanic info \<and> report_calls j tr = [] \<and> report_results j tr = []
           else report_calls j tr = expected_calls tk \<and> report_results j tr = [Panics info])
      | _ \<Rightarrow>
          (if handler_panicked tk
           then report_calls j tr = [] \<and> report_results j tr = []
           else report_calls j tr = expected_calls tk \<and> length (report_results j tr) = 1))"

definition accounted :: "state \<Rightarrow> bool" where
  "accounted s \<longleftrightarrow>
     (\<forall>j<length (tasks s). task_ok j (tasks s ! j) (trace s))
     \<and> (\<forall>j\<ge>length (tasks s). report_calls j (trace s) = [] \<and> report_results j (trace s) = [])"

text \<open>\<open>offered\<close>: a value pending on \<^verbatim>\<open>chFatal\<close> has its origin in the trace.\<close>

definition offered :: "state \<Rightarrow> bool" where
  "offered s \<longleftrightarrow>
     (\<forall>err. spawner s = SpSend err \<or> spawner s = SpRecover err \<longrightarrow> origin s Spawner err)
     \<and> (\<forall>i<length (polls s). \<forall>err. p_pc (polls s ! i) = PSend err \<longrightarrow> origin s (Poll i) err)"

text \<open>
  \<open>ranging\<close>: the names looked up so far are an initial part of the iteration order, and
  every poll loop stems from a successful lookup, in that order. \<open>polled\<close>: a poll loop has only
  called \<^verbatim>\<open>ReceiveMessages\<close> with its \<^verbatim>\<open>queueID\<close>. \<open>batches\<close>: the messages a
  poll loop has received are those it has dispatched and those still to come in its
  \<^verbatim>\<open>range\<close>. \<open>winding_up\<close>: a dispatch goroutine past its sends has concluded.
\<close>

definition ranging :: "string list \<Rightarrow> state \<Rightarrow> bool" where
  "ranging order s \<longleftrightarrow>
     take (length (lookups (trace s))) order = map fst (lookups (trace s))
     \<and> (case spawner s of
          SpRange rest \<Rightarrow> lookups (trace s) = started (polls s) \<and> rest = drop (length (polls s)) order
        | _ \<Rightarrow> lookups (trace s) \<noteq> [] \<and> butlast (lookups (trace s)) = started (polls s))"

definition polled :: "state \<Rightarrow> bool" where
  "polled s \<longleftrightarrow>
     (\<forall>i<length (polls s). set (receive_ids i (trace s)) \<subseteq> {queueID (polls s ! i)})
     \<and> (\<forall>i\<ge>length (polls s). receive_ids i (trace s) = [])"

definition batches :: "state \<Rightarrow> bool" where
  "batches s \<longleftrightarrow>
     (\<forall>i<length (polls s). fetched i (trace s) = dispatched i (tasks s) @ remaining (polls s ! i))
     \<and> (\<forall>i\<ge>length (polls s). fetched i (trace s) = [])"

definition winding_up :: "state \<Rightarrow> bool" where
  "winding_up s \<longleftrightarrow>
     (\<forall>j<length (tasks s). past_send (t_pc (tasks s ! j)) \<longrightarrow> concluded j (trace s))"

definition invariant :: "subscriber \<Rightarrow> string list \<Rightarrow> state \<Rightarrow> bool" where
  "invariant t order s \<longleftrightarrow>
     handlers (recv s) = handlers t \<and> wired s \<and> joined s \<and> accounted s \<and> offered s
     \<and> first_fatal s \<and> ranging order s \<and> polled s \<and> batches s \<and> winding_up s"

text \<open>
  The panic values of the \<^verbatim>\<open>ReceiveMessages\<close> calls. \<open>crash_cause\<close>: the process has
  crashed exactly when one of these calls has panicked (\<^verbatim>\<open>wgMessage.Done()\<close> never
  takes a counter below 0).
\<close>

definition receive_panics :: "event list \<Rightarrow> string list" where
  "receive_panics tr =
     concat (map (\<lambda>ev. case ev of
        ReceiveMessages k q r \<Rightarrow> (case r of Panics info \<Rightarrow> [info] | _ \<Rightarrow> [])
      | _ \<Rightarrow> []) tr)"


subsection \<open>An example\<close>

text \<open>
  Two queues as in \<^verbatim>\<open>main\<close>: the handler of the first returns an error, that of the
  second returns nil; a third queue is registered with a nil handler.
\<close>

definition handleQueue1 :: Handler where
  "handleQueue1 id' message = HErr ''error handleQueue1''"

definition handleQueue2 :: Handler where
  "handleQueue2 id' message = HNil"

definition example_handlers :: "string \<rightharpoonup> binding" where
  "example_handlers =
     [''Queue1'' \<mapsto> \<lparr>handler = Some handleQueue1, opt = \<lparr>WaitTime = 5\<rparr>\<rparr>,
      ''Queue2'' \<mapsto> \<lparr>handler = Some handleQueue2, opt = \<lparr>WaitTime = 0\<rparr>\<rparr>,
      ''Queue3'' \<mapsto> \<lparr>handler = None, opt = \<lparr>WaitTime = 0\<rparr>\<rparr>]"

definition example_subscriber :: "int \<Rightarrow> subscriber" where
  "example_subscriber n =
     \<lparr>handlers = example_handlers, soption = \<lparr>ConcurrencyMessageHandleLimit = n\<rparr>,
      semaphore = \<lparr>cap = nat n, buf = []\<rparr>\<rparr>"

definition msg1 :: ReceiveMessage where
  "msg1 = \<lparr>MessageID = ''m1'', ReceiptHandle = ''rh1'', Body = Some ''test-body''\<rparr>"

definition msg2 :: ReceiveMessage where
  "msg2 = \<lparr>MessageID = ''m2'', ReceiptHandle = ''rh2'', Body = None\<rparr>"

definition example_order :: "string list" where
  "example_order = [''Queue1'', ''Queue2'', ''Queue3'']"

text \<open>
  With a limit of 1: two messages of the first queue are dispatched, the second one is
  handled and reported, then the first one gets the permit.
\<close>

definition schedule_permit :: "action list" where
  "schedule_permit =
     [Resolve (Returns (Inr ''url1'')), Receive 0 (Returns (Inr [msg1, msg2])), Go 0, Go 0,
      Acquire 1, Invoke 1, Report 1 (Returns None), Done 1, Release 1, Acquire 0]"

text \<open>
  The runs below start from \<open>example_start\<close>; \<open>after acts\<close> is the state that the
  schedule \<open>acts\<close> reaches from there.
\<close>

definition example_start :: state where
  "example_start = Subscribe (example_subscriber 1) example_order"

definition after :: "action list \<Rightarrow> state" where
  "after acts = the (run acts example_start)"

text \<open>
  One message on each of the first two queues, both handled and reported; the first poll
  loop then returns from \<^verbatim>\<open>Wait\<close>.
\<close>

definition schedule_reports :: "action list" where
  "schedule_reports =
     [Resolve (Returns (Inr ''url1'')), Resolve (Returns (Inr ''url2'')),
      Receive 0 (Returns (Inr [msg1])), Receive 1 (Returns (Inr [msg2])), Go 0, Go 1,
      Acquire 0, Invoke 0, Report 0 (Returns None), Done 0, Release 0,
      Acquire 1, Invoke 1, Report 1 (Returns None), Done 1, Release 1, Wait 0]"


text \<open>
  A message of the first queue reaches its handler, which returns an error; then the
  report call fails and its error is received from \<^verbatim>\<open>chFatal\<close>.
\<close>

definition schedule_handler :: "action list" where
  "schedule_handler =
     [Resolve (Returns (Inr ''url1'')), Receive 0 (Returns (Inr [msg1])), Go 0, Acquire 0]"


text \<open>
  The third queue registered again with a nil handler, and a message of that queue that
  has got its permit.
\<close>

definition example_registered :: subscriber where
  "example_registered =
     (example_subscriber 1)\<lparr>handlers :=
        (handlers (example_subscriber 1))(''Queue3'' \<mapsto> \<lparr>handler = None, opt = \<lparr>WaitTime = 0\<rparr>\<rparr>)\<rparr>"

definition schedule_nil_handler :: "action list" where
  "schedule_nil_handler =
     [Resolve (Returns (Inr ''url1'')), Resolve (Returns (Inr ''url2'')),
      Resolve (Returns (Inr ''url3'')), Receive 2 (Returns (Inr [msg1])), Go 2, Acquire 0]"

definition nil_handler_state :: state where
  "nil_handler_state = the (run schedule_nil_handler (Subscribe example_registered example_order))"

text \<open>
  The first queue is resolved, the lookup of the second fails, and the first poll loop
  carries on.
\<close>

definition schedule_first_queue :: "action list" where
  "schedule_first_queue = [Resolve (Returns (Inr ''url1''))]"

definition resolve_failed_state :: state where
  "resolve_failed_state = the (step (Resolve (Returns (Inl ''no queue''))) (after schedule_first_queue))"

definition schedule_carry_on :: "action list" where
  "schedule_carry_on = [Receive 0 (Returns (Inr [msg1])), Go 0, Acquire 0, Deliver Spawner]"


text \<open>
  Two queues with a limit of 2; the handler of the first panics with the \<^verbatim>\<open>id\<close> and
  the \<^verbatim>\<open>message\<close> it was called with. A message of each queue has got its permit.
\<close>

definition handleEcho :: Handler where
  "handleEcho id' message = HPanic (id' @ ''/'' @ (case message of None \<Rightarrow> ''nil'' | Some body \<Rightarrow> body))"

definition example_echo :: subscriber where
  "example_echo =
     \<lparr>handlers = [''Queue1'' \<mapsto> \<lparr>handler = Some handleEcho, opt = \<lparr>WaitTime = 0\<rparr>\<rparr>,
                  ''Queue2'' \<mapsto> \<lparr>handler = Some handleQueue2, opt = \<lparr>WaitTime = 0\<rparr>\<rparr>],
      soption = \<lparr>ConcurrencyMessageHandleLimit = 2\<rparr>, semaphore = \<lparr>cap = 2, buf = []\<rparr>\<rparr>"

definition schedule_echo :: "action list" where
  "schedule_echo =
     [Resolve (Returns (Inr ''url1'')), Resolve (Returns (Inr ''url2'')),
      Receive 0 (Returns (Inr [msg1])), Receive 1 (Returns (Inr [msg2])), Go 0, Go 1,
      Acquire 0, Acquire 1]"

definition echo_state :: state where
  "echo_state = the (run schedule_echo (Subscribe example_echo [''Queue1'', ''Queue2'']))"

text \<open>
  As \<open>schedule_nil_handler\<close>, but the fetch of the first queue has failed before and
  \<^verbatim>\<open>Subscribe\<close> has returned its error; then the nil handler is called, and the second
  poll loop carries on.
\<close>

definition schedule_late_nil_handler :: "action list" where
  "schedule_late_nil_handler =
     [Resolve (Returns (Inr ''url1'')), Resolve (Returns (Inr ''url2'')),
      Resolve (Returns (Inr ''url3'')), Receive 0 (Returns (Inl ''fetch failed'')),
      Deliver (Poll 0), Receive 2 (Returns (Inr [msg1])), Go 2, Acquire 0]"

definition late_nil_handler_state :: state where
  "late_nil_handler_state =
     the (run schedule_late_nil_handler (Subscribe example_registered example_order))"

definition late_nil_handler_panicked :: state where
  "late_nil_handler_panicked = the (step (Invoke 0) late_nil_handler_state)"

definition schedule_sibling :: "action list" where
  "schedule_sibling = [Receive 1 (Returns (Inr [msg2])), Go 1]"

text \<open>
  Two queues are resolved, the fetch of the first fails and \<^verbatim>\<open>Subscribe\<close> returns its
  error; then the lookup of the third queue fails, and the second poll loop carries on.
\<close>

definition schedule_late_resolve :: "action list" where
  "schedule_late_resolve =
     [Resolve (Returns (Inr ''url1'')), Resolve (Returns (Inr ''url2'')),
      Receive 0 (Returns (Inl ''fetch failed'')), Deliver (Poll 0)]"

definition late_resolve_state :: state where
  "late_resolve_state =
     the (step (Resolve (Returns (Inl ''no queue''))) (after schedule_late_resolve))"

definition schedule_other_queue :: "action list" where
  "schedule_other_queue = [Receive 1 (Returns (Inr [msg2])), Go 1, Acquire 0]"

section \<open>Runs and their invariants\<close>

lemmas example_defs =
  example_subscriber_def example_handlers_def handleQueue1_def handleQueue2_def msg1_def msg2_def
  example_order_def Subscribe_def

lemmas step_defs =
  step_def resolve_def receive_def dispatch_def wait_def acquire_def invoke_def report_def
  wg_Done_def release_def deliver_def pending_def sent_def call_handler_def after_handler_def
  after_report_def

lemma run_invariant:
  assumes "run acts s0 = Some s" and "P s0"
    and "\<And>a s s'. P s \<Longrightarrow> step a s = Some s' \<Longrightarrow> P s'"
  shows "P s"
  using assms(1,2)
proof (induction acts arbitrary: s0)
  case Nil
  then show ?case by simp
next
  case (Cons a acts)
  then show ?case by (auto split: option.splits intro: assms(3))
qed

lemma run_append:
  "run (xs @ ys) s = (case run xs s of None \<Rightarrow> None | Some s' \<Rightarrow> run ys s')"
  by (induction xs arbitrary: s) (auto split: option.splits)

subsection \<open>The steps, case by case\<close>

lemma step_cases [consumes 1, case_names resolve_panic resolve_err resolve_ok
    receive_panic receive_err receive_ok go wait acquire invoke report_failure report_success
    done_crash done_ok release deliver_spawner deliver_poll deliver_task]:
  assumes "step a s = Some s'"
  obtains
    (resolve_panic) name rest h info where
      "\<not> crashed s" "a = Resolve (Panics info)"
      "spawner s = SpRange (name # rest)" "handlers (recv s) name = Some h"
      "s' = s\<lparr>spawner := SpRecover info, trace := trace s @ [GetQueueID name (Panics info)]\<rparr>"
  | (resolve_err) name rest h err where
      "\<not> crashed s" "a = Resolve (Returns (Inl err))"
      "spawner s = SpRange (name # rest)" "handlers (recv s) name = Some h"
      "s' = s\<lparr>spawner := SpSend err, trace := trace s @ [GetQueueID name (Returns (Inl err))]\<rparr>"
  | (resolve_ok) name rest h id' where
      "\<not> crashed s" "a = Resolve (Returns (Inr id'))"
      "spawner s = SpRange (name # rest)" "handlers (recv s) name = Some h"
      "s' = s\<lparr>spawner := SpRange rest,
              polls := polls s @ [\<lparr>queueName = name, queueID = id', p_handler = h, p_id = id',
                                  p_pc = PReceive\<rparr>],
              trace := trace s @ [GetQueueID name (Returns (Inr id'))]\<rparr>"
  | (receive_panic) i info where
      "\<not> crashed s" "a = Receive i (Panics info)"
      "i < length (polls s)" "p_pc (polls s ! i) = PReceive"
      "s' = s\<lparr>crashed := True,
              trace := trace s @ [ReceiveMessages i (queueID (polls s ! i)) (Panics info)]\<rparr>"
  | (receive_err) i err where
      "\<not> crashed s" "a = Receive i (Returns (Inl err))"
      "i < length (polls s)" "p_pc (polls s ! i) = PReceive"
      "s' = s\<lparr>polls := (polls s)[i := (polls s ! i)\<lparr>p_pc := PSend err\<rparr>],
              trace := trace s @ [ReceiveMessages i (queueID (polls s ! i)) (Returns (Inl err))]\<rparr>"
  | (receive_ok) i msgs where
      "\<not> crashed s" "a = Receive i (Returns (Inr msgs))"
      "i < length (polls s)" "p_pc (polls s ! i) = PReceive"
      "s' = s\<lparr>polls := (polls s)[i := (polls s ! i)\<lparr>p_pc := PRange (length (wgs s)) msgs\<rparr>],
              wgs := wgs s @ [0],
              trace := trace s @ [ReceiveMessages i (queueID (polls s ! i)) (Returns (Inr msgs))]\<rparr>"
  | (go) i w msg rest where
      "\<not> crashed s" "a = Go i"
      "i < length (polls s)" "p_pc (polls s ! i) = PRange w (msg # rest)" "w < length (wgs s)"
      "s' = s\<lparr>polls := (polls s)[i := (polls s ! i)\<lparr>p_pc := PRange w rest\<rparr>],
              wgs := (wgs s)[w := wgs s ! w + 1],
              tasks := tasks s @ [\<lparr>t_owner = i, t_handler = p_handler (polls s ! i),
                                   t_id = p_id (polls s ! i), t_msg = msg, t_wg = w,
                                   t_pc = TAcquire\<rparr>]\<rparr>"
  | (wait) i w where
      "\<not> crashed s" "a = Wait i"
      "i < length (polls s)" "p_pc (polls s ! i) = PRange w []" "w < length (wgs s)"
      "wgs s ! w = 0"
      "s' = s\<lparr>polls := (polls s)[i := (polls s ! i)\<lparr>p_pc := PReceive\<rparr>]\<rparr>"
  | (acquire) j where
      "\<not> crashed s" "a = Acquire j"
      "j < length (tasks s)" "t_pc (tasks s ! j) = TAcquire"
      "length (buf (semaphore (recv s))) < cap (semaphore (recv s))"
      "s' = s\<lparr>recv := (recv s)\<lparr>semaphore := (semaphore (recv s))\<lparr>buf := buf (semaphore (recv s)) @ [1]\<rparr>\<rparr>,
              tasks := (tasks s)[j := (tasks s ! j)\<lparr>t_pc := THandler\<rparr>]\<rparr>"
  | (invoke) j where
      "\<not> crashed s" "a = Invoke j"
      "j < length (tasks s)" "t_pc (tasks s ! j) = THandler"
      "s' = s\<lparr>tasks := (tasks s)[j := (tasks s ! j)\<lparr>t_pc := after_handler (call_handler (tasks s ! j))\<rparr>]\<rparr>"
  | (report_failure) j r where
      "\<not> crashed s" "a = Report j r"
      "j < length (tasks s)" "t_pc (tasks s ! j) = TReportFailure"
      "s' = s\<lparr>tasks := (tasks s)[j := (tasks s ! j)\<lparr>t_pc := after_report r\<rparr>],
              trace := trace s @ [ReportFailureMessage j (t_id (tasks s ! j))
                 (ReceiptHandle (t_msg (tasks s ! j)))
                 (WaitTime (opt (t_handler (tasks s ! j)))) r]\<rparr>"
  | (report_success) j r where
      "\<not> crashed s" "a = Report j r"
      "j < length (tasks s)" "t_pc (tasks s ! j) = TReportSuccess"
      "s' = s\<lparr>tasks := (tasks s)[j := (tasks s ! j)\<lparr>t_pc := after_report r\<rparr>],
              trace := trace s @ [ReportSuccessMessage j (t_id (tasks s ! j))
                 (ReceiptHandle (t_msg (tasks s ! j))) r]\<rparr>"
  | (done_crash) j where
      "\<not> crashed s" "a = Done j"
      "j < length (tasks s)" "t_pc (tasks s ! j) = TDone" "t_wg (tasks s ! j) < length (wgs s)"
      "wgs s ! t_wg (tasks s ! j) - 1 < 0"
      "s' = s\<lparr>crashed := True\<rparr>"
  | (done_ok) j where
      "\<not> crashed s" "a = Done j"
      "j < length (tasks s)" "t_pc (tasks s ! j) = TDone" "t_wg (tasks s ! j) < length (wgs s)"
      "\<not> wgs s ! t_wg (tasks s ! j) - 1 < 0"
      "s' = s\<lparr>wgs := (wgs s)[t_wg (tasks s ! j) := wgs s ! t_wg (tasks s ! j) - 1],
              tasks := (tasks s)[j := (tasks s ! j)\<lparr>t_pc := TRelease\<rparr>]\<rparr>"
  | (release) j where
      "\<not> crashed s" "a = Release j"
      "j < length (tasks s)" "t_pc (tasks s ! j) = TRelease" "buf (semaphore (recv s)) \<noteq> []"
      "s' = s\<lparr>recv := (recv s)\<lparr>semaphore := (semaphore (recv s))\<lparr>buf := tl (buf (semaphore (recv s)))\<rparr>\<rparr>,
              tasks := (tasks s)[j := (tasks s ! j)\<lparr>t_pc := TExit\<rparr>]\<rparr>"
  | (deliver_spawner) err where
      "\<not> crashed s" "a = Deliver Spawner" "caller s = Receiving"
      "spawner s = SpSend err \<or> spawner s = SpRecover err"
      "s' = s\<lparr>spawner := SpDone, caller := Returned (Some err),
              trace := trace s @ [Fatal Spawner err]\<rparr>"
  | (deliver_poll) i err where
      "\<not> crashed s" "a = Deliver (Poll i)" "caller s = Receiving"
      "i < length (polls s)" "p_pc (polls s ! i) = PSend err"
      "s' = s\<lparr>polls := (polls s)[i := (polls s ! i)\<lparr>p_pc := PDone\<rparr>],
              caller := Returned (Some err), trace := trace s @ [Fatal (Poll i) err]\<rparr>"
  | (deliver_task) j err where
      "\<not> crashed s" "a = Deliver (Dispatch j)" "caller s = Receiving"
      "j < length (tasks s)" "t_pc (tasks s ! j) = TSend err \<or> t_pc (tasks s ! j) = TRecover err"
      "s' = s\<lparr>tasks := (tasks s)[j := (tasks s ! j)\<lparr>t_pc := TDone\<rparr>],
              caller := Returned (Some err), trace := trace s @ [Fatal (Dispatch j) err]\<rparr>"
proof (cases a)
  case (Resolve r)
  with assms resolve_panic resolve_err resolve_ok show thesis
    by (auto simp: step_def resolve_def
        split: if_splits spc.splits list.splits option.splits outcome.splits sum.splits)
next
  case (Receive i r)
  with assms receive_panic receive_err receive_ok show thesis
    by (auto simp: step_def receive_def split: if_splits ppc.splits outcome.splits sum.splits)
next
  case (Go i)
  with assms go show thesis
    by (auto simp: step_def dispatch_def split: if_splits ppc.splits list.splits)
next
  case (Wait i)
  with assms wait show thesis
    by (auto simp: step_def wait_def split: if_splits ppc.splits list.splits)
next
  case (Acquire j)
  with assms acquire show thesis
    by (auto simp: step_def acquire_def split: if_splits)
next
  case (Invoke j)
  with assms invoke show thesis
    by (auto simp: step_def invoke_def split: if_splits)
next
  case (Report j r)
  with assms report_failure report_success show thesis
    by (auto simp: step_def report_def split: if_splits tpc.splits)
next
  case (Done j)
  with assms done_crash done_ok show thesis
    by (auto simp: step_def wg_Done_def split: if_splits)
next
  case (Release j)
  with assms release show thesis
    by (auto simp: step_def release_def split: if_splits)
next
  case (Deliver g)
  show thesis
  proof (cases g)
    case Spawner
    with Deliver assms deliver_spawner show thesis
      by (auto simp: step_def deliver_def pending_def sent_def split: if_splits spc.splits option.splits)
  next
    case (Poll i)
    with Deliver assms deliver_poll show thesis
      by (auto simp: step_def deliver_def pending_def sent_def split: if_splits ppc.splits option.splits)
  next
    case (Dispatch j)
    with Deliver assms deliver_task show thesis
      by (auto simp: step_def deliver_def pending_def sent_def split: if_splits tpc.splits option.splits)
  qed
qed

lemma handlers_step: "step a s = Some s' \<Longrightarrow> handlers (recv s') = handlers (recv s)"
  by (cases rule: step_cases) auto

subsection \<open>Counting in a list that is updated at one place\<close>

lemma filter_update_count:
  "j < length xs \<Longrightarrow>
     length (filter P (xs[j := y])) + (if P (xs ! j) then 1 else 0)
       = length (filter P xs) + (if P y then 1 else 0)"
proof (induction xs arbitrary: j)
  case Nil
  then show ?case by simp
next
  case (Cons x xs)
  then show ?case by (cases j) auto
qed

lemma filter_nth_pos: "j < length xs \<Longrightarrow> P (xs ! j) \<Longrightarrow> 0 < length (filter P xs)"
  by (metis filter_empty_conv length_greater_0_conv nth_mem)

lemma filter_update_length:
  "j < length xs \<Longrightarrow>
     length (filter P (xs[j := y]))
       = length (filter P xs) - (if P (xs ! j) then 1 else 0) + (if P y then 1 else 0)"
  using filter_update_count [of j xs P y] filter_nth_pos [of j xs P] by (auto split: if_splits)

lemma filter_update_same:
  "j < length xs \<Longrightarrow> P (xs ! j) = P y \<Longrightarrow> length (filter P (xs[j := y])) = length (filter P xs)"
  using filter_update_count [of j xs P y] by (auto split: if_splits)

lemma filter_none: "(\<And>j. j < length xs \<Longrightarrow> \<not> P (xs ! j)) \<Longrightarrow> filter P xs = []"
  by (metis filter_False in_set_conv_nth)

lemma filter_length_zero: "length (filter P xs) = 0 \<Longrightarrow> j < length xs \<Longrightarrow> \<not> P (xs ! j)"
  using filter_nth_pos [of j xs P] by auto

lemma filter_update_drop:
  "j < length xs \<Longrightarrow> P (xs ! j) \<Longrightarrow> \<not> P y \<Longrightarrow>
     int (length (filter P (xs[j := y]))) = int (length (filter P xs)) - 1"
  using filter_update_count [of j xs P y] by simp

lemma map_update_same: "f y = f (xs ! j) \<Longrightarrow> map f (xs[j := y]) = map f xs"
proof (induction xs arbitrary: j)
  case Nil
  then show ?case by simp
next
  case (Cons x xs)
  then show ?case by (cases j) auto
qed

lemma map_filter_update:
  "P y = P (xs ! j) \<Longrightarrow> f y = f (xs ! j) \<Longrightarrow> map f (filter P (xs[j := y])) = map f (filter P xs)"
proof (induction xs arbitrary: j)
  case Nil
  then show ?case by simp
next
  case (Cons x xs)
  then show ?case by (cases j) auto
qed

lemma drop_Cons_take:
  "drop n xs = y # ys \<Longrightarrow> take (Suc n) xs = take n xs @ [y] \<and> drop (Suc n) xs = ys"
proof (induction xs arbitrary: n)
  case Nil
  then show ?case by simp
next
  case (Cons x xs)
  then show ?case by (cases n) auto
qed

subsection \<open>The semaphore counts the goroutines between acquire and release\<close>

lemma permits_step:
  assumes "permits s" and "step a s = Some s'"
  shows "permits s' \<and> cap (semaphore (recv s')) = cap (semaphore (recv s))"
proof (cases a)
  case (Resolve r)
  with assms show ?thesis
    by (auto simp: step_def resolve_def permits_def
        split: if_splits spc.splits list.splits option.splits outcome.splits sum.splits)
next
  case (Receive i r)
  with assms show ?thesis
    by (auto simp: step_def receive_def permits_def
        split: if_splits ppc.splits outcome.splits sum.splits)
next
  case (Go i)
  with assms show ?thesis
    by (auto simp: step_def dispatch_def permits_def holding_def
        split: if_splits ppc.splits list.splits)
next
  case (Wait i)
  with assms show ?thesis
    by (auto simp: step_def wait_def permits_def
        split: if_splits ppc.splits list.splits)
next
  case (Acquire j)
  with assms show ?thesis
    by (auto simp: step_def acquire_def permits_def holding_def filter_update_length split: if_splits)
next
  case (Invoke j)
  with assms show ?thesis
    using filter_nth_pos [of j "tasks s" holding]
    by (auto simp: step_def invoke_def permits_def holding_def after_handler_def filter_update_length
        split: if_splits hres.splits)
next
  case (Report j r)
  with assms show ?thesis
    using filter_nth_pos [of j "tasks s" holding]
    by (auto simp: step_def report_def permits_def holding_def after_report_def filter_update_length
        split: if_splits tpc.splits outcome.splits option.splits)
next
  case (Done j)
  with assms show ?thesis
    using filter_nth_pos [of j "tasks s" holding]
    by (auto simp: step_def wg_Done_def permits_def holding_def filter_update_length split: if_splits)
next
  case (Release j)
  with assms show ?thesis
    using filter_nth_pos [of j "tasks s" holding]
    by (auto simp: step_def release_def permits_def holding_def filter_update_length split: if_splits)
next
  case (Deliver g)
  with assms show ?thesis
    by (auto simp: step_def deliver_def pending_def sent_def permits_def
        split: if_splits goroutine.splits spc.splits ppc.splits tpc.splits option.splits
        intro!: filter_update_same [symmetric] simp: holding_def)
qed

lemma executing_le_holding: "executing s \<le> length (filter holding (tasks s))"
proof -
  have "filter (\<lambda>tk. t_pc tk = THandler) (tasks s)
        = filter (\<lambda>tk. t_pc tk = THandler) (filter holding (tasks s))"
    by (auto simp: holding_def intro: filter_cong)
  then show ?thesis
    unfolding executing_def by (metis length_filter_le)
qed

lemma permits_run:
  assumes "run acts s0 = Some s" and "permits s0"
  shows "permits s \<and> cap (semaphore (recv s)) = cap (semaphore (recv s0))"
  using assms(1)
proof (rule run_invariant)
  show "permits s0 \<and> cap (semaphore (recv s0)) = cap (semaphore (recv s0))"
    using assms(2) by simp
next
  fix a s s'
  assume "permits s \<and> cap (semaphore (recv s)) = cap (semaphore (recv s0))" "step a s = Some s'"
  then show "permits s' \<and> cap (semaphore (recv s')) = cap (semaphore (recv s0))"
    using permits_step by metis
qed

subsection \<open>Closures and WaitGroups\<close>

lemma wired_step:
  assumes "wired s" and "step a s = Some s'"
  shows "wired s'"
  using assms(2,1)
  by (cases rule: step_cases) (auto simp: wired_def nth_append nth_list_update less_Suc_eq)

lemma joined_step:
  assumes "joined s" and "wired s" and "step a s = Some s'"
  shows "joined s'"
  using assms(3)
proof (cases rule: step_cases)
  case (receive_ok i msgs)
  have none: "filter (waiting_on (length (wgs s))) (tasks s) = []"
    using assms(2) by (intro filter_none) (auto simp: wired_def waiting_on_def)
  have 1: "wgs s' ! w = int (length (filter (waiting_on w) (tasks s')))" if "w < length (wgs s')" for w
  proof (cases "w < length (wgs s)")
    case True
    with assms(1) receive_ok show ?thesis by (simp add: joined_def nth_append)
  next
    case False
    with that receive_ok have "w = length (wgs s)" by simp
    with receive_ok none show ?thesis by simp
  qed
  have 2: "\<exists>ms. p_pc (polls s' ! t_owner (tasks s' ! j)) = PRange (t_wg (tasks s' ! j)) ms"
    if "j < length (tasks s')" "\<not> settled (tasks s' ! j)" for j
    using that assms(1) receive_ok by (auto simp: joined_def nth_list_update)
  from 1 2 show ?thesis by (simp add: joined_def)
next
  case (go i w msg rest)
  with assms(1) show ?thesis
    by (auto simp: joined_def nth_append nth_list_update waiting_on_def settled_def less_Suc_eq)
next
  case (wait i w)
  have "\<And>j. j < length (tasks s) \<Longrightarrow> t_owner (tasks s ! j) = i \<Longrightarrow> settled (tasks s ! j)"
  proof (rule ccontr)
    fix j assume j: "j < length (tasks s)" "t_owner (tasks s ! j) = i" "\<not> settled (tasks s ! j)"
    with assms(1) wait have "t_wg (tasks s ! j) = w" by (auto simp: joined_def)
    with j have "waiting_on w (tasks s ! j)" by (simp add: waiting_on_def)
    moreover have "length (filter (waiting_on w) (tasks s)) = 0"
      using assms(1) wait by (auto simp: joined_def)
    ultimately show False
      using filter_length_zero [of "waiting_on w" "tasks s" j] j(1) by simp
  qed
  with wait assms(1) show ?thesis
    by (auto simp: joined_def nth_list_update)
next
  case (acquire j)
  with assms(1) show ?thesis
    by (auto simp: joined_def nth_list_update filter_update_same waiting_on_def settled_def)
next
  case (invoke j)
  with assms(1) show ?thesis
    by (auto simp: joined_def nth_list_update filter_update_same waiting_on_def settled_def
        after_handler_def split: hres.splits)
next
  case (report_failure j r)
  with assms(1) show ?thesis
    by (auto simp: joined_def nth_list_update filter_update_same waiting_on_def settled_def
        after_report_def split: outcome.splits option.splits)
next
  case (report_success j r)
  with assms(1) show ?thesis
    by (auto simp: joined_def nth_list_update filter_update_same waiting_on_def settled_def
        after_report_def split: outcome.splits option.splits)
next
  case (done_ok j)
  let ?w = "t_wg (tasks s ! j)" and ?ts = "(tasks s)[j := (tasks s ! j)\<lparr>t_pc := TRelease\<rparr>]"
  have 1: "int (length (filter (waiting_on ?w) ?ts)) = int (length (filter (waiting_on ?w) (tasks s))) - 1"
    using done_ok by (intro filter_update_drop) (simp_all add: waiting_on_def settled_def)
  have 2: "length (filter (waiting_on w) ?ts) = length (filter (waiting_on w) (tasks s))"
    if "w \<noteq> ?w" for w
    using done_ok that by (intro filter_update_same) (simp_all add: waiting_on_def settled_def)
  have 3: "wgs s' ! w = int (length (filter (waiting_on w) (tasks s')))" if "w < length (wgs s')" for w
    using that assms(1) done_ok 1 2 [of w] by (cases "w = ?w") (simp_all add: joined_def)
  have 4: "\<exists>ms. p_pc (polls s' ! t_owner (tasks s' ! k)) = PRange (t_wg (tasks s' ! k)) ms"
    if "k < length (tasks s')" "\<not> settled (tasks s' ! k)" for k
    using that assms(1) done_ok by (cases "k = j") (auto simp: joined_def settled_def)
  from 3 4 show ?thesis by (simp add: joined_def)
next
  case (release j)
  with assms(1) show ?thesis
    by (auto simp: joined_def nth_list_update filter_update_same waiting_on_def settled_def)
next
  case (deliver_task j err)
  with assms(1) show ?thesis
    by (auto simp: joined_def nth_list_update filter_update_same waiting_on_def settled_def)
next
  case (resolve_panic name rest h info)
  with assms(1) show ?thesis by (simp add: joined_def)
next
  case (resolve_err name rest h err)
  with assms(1) show ?thesis by (simp add: joined_def)
next
  case (resolve_ok name rest h id')
  have "\<And>j. j < length (tasks s) \<Longrightarrow> t_owner (tasks s ! j) < length (polls s)"
    using assms(2) by (simp add: wired_def)
  with resolve_ok assms(1) show ?thesis by (simp add: joined_def nth_append)
next
  case (receive_panic i info)
  with assms(1) show ?thesis by (simp add: joined_def)
next
  case (receive_err i err)
  with assms(1) show ?thesis by (auto simp: joined_def nth_list_update)
next
  case (done_crash j)
  with assms(1) show ?thesis by (simp add: joined_def)
next
  case (deliver_spawner err)
  with assms(1) show ?thesis by (simp add: joined_def)
next
  case (deliver_poll i err)
  with assms(1) show ?thesis by (auto simp: joined_def nth_list_update)
qed

subsection \<open>Report calls\<close>

lemma call_handler_pc [simp]: "call_handler (tk\<lparr>t_pc := pc\<rparr>) = call_handler tk"
  by (simp add: call_handler_def split: option.splits)

lemma expected_calls_pc [simp]: "expected_calls (tk\<lparr>t_pc := pc\<rparr>) = expected_calls tk"
  by (simp add: expected_calls_def split: hres.splits)

lemma handler_panicked_pc [simp]: "handler_panicked (tk\<lparr>t_pc := pc\<rparr>) = handler_panicked tk"
  by (simp add: handler_panicked_def)

lemma task_ok_other [simp]:
  "task_ok j tk (tr @ [GetQueueID n r]) = task_ok j tk tr"
  "task_ok j tk (tr @ [ReceiveMessages i q r']) = task_ok j tk tr"
  "task_ok j tk (tr @ [Fatal g e]) = task_ok j tk tr"
  "k \<noteq> j \<Longrightarrow> task_ok j tk (tr @ [ReportFailureMessage k q h w r'']) = task_ok j tk tr"
  "k \<noteq> j \<Longrightarrow> task_ok j tk (tr @ [ReportSuccessMessage k q h r'']) = task_ok j tk tr"
  by (simp_all add: task_ok_def report_calls_def report_results_def split: tpc.splits)

lemma accounted_step:
  assumes "accounted s" and "step a s = Some s'"
  shows "accounted s'"
  using assms(2)
proof (cases rule: step_cases)
  case (go i w msg rest)
  have "task_ok j (tasks s' ! j) (trace s')" if "j < length (tasks s')" for j
  proof (cases "j < length (tasks s)")
    case True
    with assms(1) go show ?thesis by (simp add: accounted_def nth_append)
  next
    case False
    with that go have "j = length (tasks s)" by simp
    with assms(1) go show ?thesis by (simp add: accounted_def task_ok_def)
  qed
  with assms(1) go show ?thesis by (simp add: accounted_def)
next
  case (acquire j)
  have "task_ok j (tasks s ! j) (trace s)"
    using assms(1) acquire by (auto simp: accounted_def)
  then have "task_ok j ((tasks s ! j)\<lparr>t_pc := THandler\<rparr>) (trace s)"
    using acquire by (auto simp: task_ok_def)
  with acquire assms(1) show ?thesis
    by (auto simp: accounted_def nth_list_update)
next
  case (invoke j)
  have "task_ok j (tasks s ! j) (trace s)"
    using assms(1) invoke by (auto simp: accounted_def)
  then have "task_ok j ((tasks s ! j)\<lparr>t_pc := after_handler (call_handler (tasks s ! j))\<rparr>) (trace s)"
    using invoke
    by (auto simp: task_ok_def after_handler_def handler_panicked_def split: hres.splits)
  with invoke assms(1) show ?thesis
    by (auto simp: accounted_def nth_list_update)
next
  case (report_failure j r)
  have "task_ok j (tasks s ! j) (trace s)"
    using assms(1) report_failure by (auto simp: accounted_def)
  then have "task_ok j ((tasks s ! j)\<lparr>t_pc := after_report r\<rparr>)
      (trace s @ [ReportFailureMessage j (t_id (tasks s ! j)) (ReceiptHandle (t_msg (tasks s ! j)))
         (WaitTime (opt (t_handler (tasks s ! j)))) r])"
    using report_failure
    by (auto simp: task_ok_def after_report_def handler_panicked_def expected_calls_def
        report_calls_def report_results_def split: hres.splits outcome.splits option.splits)
  moreover have "report_calls k (trace s') = report_calls k (trace s) \<and>
      report_results k (trace s') = report_results k (trace s)" if "k \<noteq> j" for k
    using that report_failure by (simp add: report_calls_def report_results_def)
  ultimately show ?thesis
    using report_failure assms(1)
    by (auto simp: accounted_def nth_list_update)
next
  case (report_success j r)
  have "task_ok j (tasks s ! j) (trace s)"
    using assms(1) report_success by (auto simp: accounted_def)
  then have "task_ok j ((tasks s ! j)\<lparr>t_pc := after_report r\<rparr>)
      (trace s @ [ReportSuccessMessage j (t_id (tasks s ! j)) (ReceiptHandle (t_msg (tasks s ! j))) r])"
    using report_success
    by (auto simp: task_ok_def after_report_def handler_panicked_def expected_calls_def
        report_calls_def report_results_def split: hres.splits outcome.splits option.splits)
  moreover have "report_calls k (trace s') = report_calls k (trace s) \<and>
      report_results k (trace s') = report_results k (trace s)" if "k \<noteq> j" for k
    using that report_success by (simp add: report_calls_def report_results_def)
  ultimately show ?thesis
    using report_success assms(1)
    by (auto simp: accounted_def nth_list_update)
next
  case (done_ok j)
  have "task_ok j (tasks s ! j) (trace s)"
    using assms(1) done_ok by (auto simp: accounted_def)
  then have "task_ok j ((tasks s ! j)\<lparr>t_pc := TRelease\<rparr>) (trace s)"
    using done_ok by (auto simp: task_ok_def)
  with done_ok assms(1) show ?thesis
    by (auto simp: accounted_def nth_list_update)
next
  case (release j)
  have "task_ok j (tasks s ! j) (trace s)"
    using assms(1) release by (auto simp: accounted_def)
  then have "task_ok j ((tasks s ! j)\<lparr>t_pc := TExit\<rparr>) (trace s)"
    using release by (auto simp: task_ok_def)
  with release assms(1) show ?thesis
    by (auto simp: accounted_def nth_list_update)
next
  case (deliver_task j err)
  have "task_ok j (tasks s ! j) (trace s)"
    using assms(1) deliver_task by (auto simp: accounted_def)
  then have "task_ok j ((tasks s ! j)\<lparr>t_pc := TDone\<rparr>) (trace s)"
    using deliver_task by (auto simp: task_ok_def split: if_splits)
  with deliver_task assms(1) show ?thesis
    by (auto simp: accounted_def nth_list_update report_calls_def report_results_def)
qed (use assms(1) in \<open>auto simp: accounted_def report_calls_def report_results_def\<close>)

subsection \<open>What reaches the fatal channel\<close>

lemma report_results_snoc:
  "report_results j (tr @ [ev]) = report_results j tr @ report_results j [ev]"
  by (simp add: report_results_def)

lemma origin_step:
  assumes "origin s g e" and "step a s = Some s'"
  shows "origin s' g e"
proof (cases g)
  case Spawner
  from assms(2) assms(1) Spawner show ?thesis
    by (cases rule: step_cases) (auto simp: origin_def resolve_failures_def)
next
  case (Poll i)
  from assms(2) assms(1) Poll show ?thesis
    by (cases rule: step_cases) (auto simp: origin_def receive_errors_def)
next
  case (Dispatch j)
  from assms(2) assms(1) Dispatch show ?thesis
    by (cases rule: step_cases)
      (auto simp: origin_def report_failures_def report_results_snoc nth_append nth_list_update)
qed

lemma offered_step:
  assumes "offered s" and "step a s = Some s'"
  shows "offered s'"
proof -
  have sp: "origin s' Spawner err" if "spawner s' = SpSend err \<or> spawner s' = SpRecover err" for err
  proof (cases "spawner s = spawner s'")
    case True
    with that assms(1) have "origin s Spawner err" by (auto simp: offered_def)
    then show ?thesis using assms(2) by (rule origin_step)
  next
    case False
    from assms(2) that False show ?thesis
      by (cases rule: step_cases) (auto simp: origin_def resolve_failures_def)
  qed
  have po: "origin s' (Poll i) err" if "i < length (polls s')" "p_pc (polls s' ! i) = PSend err" for i err
  proof (cases "i < length (polls s) \<and> p_pc (polls s ! i) = PSend err")
    case True
    with assms(1) have "origin s (Poll i) err" by (auto simp: offered_def)
    then show ?thesis using assms(2) by (rule origin_step)
  next
    case False
    from assms(2) that False show ?thesis
      by (cases rule: step_cases)
        (auto simp: origin_def receive_errors_def nth_append nth_list_update split: if_splits)
  qed
  from sp po show ?thesis by (simp add: offered_def)
qed

lemma pending_origin:
  assumes "offered s" and "accounted s" and "pending g s = Some e"
  shows "origin s g e"
proof (cases g)
  case Spawner
  with assms(1,3) show ?thesis
    by (auto simp: offered_def pending_def split: spc.splits)
next
  case (Poll i)
  with assms(1,3) show ?thesis
    by (auto simp: offered_def pending_def split: if_splits ppc.splits)
next
  case (Dispatch j)
  with assms(3) have j: "j < length (tasks s)"
    and pc: "t_pc (tasks s ! j) = TSend e \<or> t_pc (tasks s ! j) = TRecover e"
    by (auto simp: pending_def split: if_splits tpc.splits)
  from assms(2) j have "task_ok j (tasks s ! j) (trace s)" by (simp add: accounted_def)
  with pc j Dispatch show ?thesis
    by (auto simp: task_ok_def origin_def report_failures_def split: if_splits)
qed

lemma first_fatal_step:
  assumes "first_fatal s" and "offered s" and "accounted s" and "step a s = Some s'"
  shows "first_fatal s'"
proof (cases "fatals (trace s') = fatals (trace s) \<and> caller s' = caller s")
  case True
  show ?thesis
  proof (cases "fatals (trace s)")
    case Nil
    with True assms(1) show ?thesis by (simp add: first_fatal_def)
  next
    case (Cons x xs)
    with assms(1) obtain g e where x: "fatals (trace s) = [(g, e)]" "caller s = Returned (Some e)"
      "origin s g e"
      by (cases x; cases xs) (auto simp: first_fatal_def)
    from x(3) assms(4) have "origin s' g e" by (rule origin_step)
    with True x show ?thesis by (simp add: first_fatal_def)
  qed
next
  case False
  with assms(4) obtain g where a: "a = Deliver g"
    by (cases rule: step_cases) (auto simp: fatals_def)
  with assms(4) obtain e where e: "pending g s = Some e" "caller s = Receiving"
    "caller s' = Returned (Some e)" "trace s' = trace s @ [Fatal g e]"
    by (auto simp: step_def deliver_def split: if_splits option.splits)
  from e(2) assms(1) have "fatals (trace s) = []"
    by (cases "fatals (trace s)" rule: returns_first.cases [of "(_, s)"]) (auto simp: first_fatal_def)
  moreover have "origin s' g e"
    using pending_origin [OF assms(2,3) e(1)] assms(4) by (rule origin_step)
  moreover have "fatals (trace s') = fatals (trace s) @ [(g, e)]"
    using e(4) by (simp add: fatals_def)
  ultimately show ?thesis
    using e(3) by (simp add: first_fatal_def)
qed

lemma concluded_snoc: "concluded j tr \<Longrightarrow> concluded j (tr @ [ev])"
  by (auto simp: concluded_def returned_reports_def report_results_def fatals_def)

lemma concluded_report:
  "concluded j (tr @ [ReportFailureMessage j q h w (Returns x)])"
  "concluded j (tr @ [ReportSuccessMessage j q h (Returns x)])"
  "concluded j (tr @ [Fatal (Dispatch j) e])"
  by (simp_all add: concluded_def returned_reports_def report_results_def fatals_def)

lemma winding_up_step:
  assumes "winding_up s" and "step a s = Some s'"
  shows "winding_up s'"
  using assms(2)
proof (cases rule: step_cases)
  case (go i w msg rest)
  with assms(1) show ?thesis
    by (auto simp: winding_up_def nth_append past_send_def)
next
  case (invoke j)
  with assms(1) show ?thesis
    by (auto simp: winding_up_def nth_list_update past_send_def after_handler_def split: hres.splits)
next
  case (report_failure j r)
  with assms(1) show ?thesis
    by (auto simp: winding_up_def nth_list_update past_send_def after_report_def concluded_report
        intro: concluded_snoc split: outcome.splits option.splits)
next
  case (report_success j r)
  with assms(1) show ?thesis
    by (auto simp: winding_up_def nth_list_update past_send_def after_report_def concluded_report
        intro: concluded_snoc split: outcome.splits option.splits)
next
  case (deliver_task j err)
  with assms(1) show ?thesis
    by (auto simp: winding_up_def nth_list_update concluded_report intro: concluded_snoc)
qed (use assms(1) in \<open>auto simp: winding_up_def nth_list_update past_send_def intro: concluded_snoc\<close>)

subsection \<open>Lookups, fetches and batches\<close>

lemma started_pc [simp]: "started (ps[i := (ps ! i)\<lparr>p_pc := pc\<rparr>]) = started ps"
  unfolding started_def by (rule map_update_same) simp

lemma lookups_snoc [simp]:
  "lookups (tr @ [GetQueueID n r]) = lookups tr @ [(n, r)]"
  "lookups (tr @ [ReceiveMessages i q r']) = lookups tr"
  "lookups (tr @ [ReportFailureMessage j q h w r'']) = lookups tr"
  "lookups (tr @ [ReportSuccessMessage j q h r'']) = lookups tr"
  "lookups (tr @ [Fatal g e]) = lookups tr"
  by (simp_all add: lookups_def)

lemma dispatched_pc [simp]: "dispatched i (ts[j := (ts ! j)\<lparr>t_pc := pc\<rparr>]) = dispatched i ts"
  unfolding dispatched_def by (rule map_filter_update) simp_all

lemma dispatched_none: "(\<And>j. j < length ts \<Longrightarrow> t_owner (ts ! j) \<noteq> i) \<Longrightarrow> dispatched i ts = []"
  unfolding dispatched_def by (simp add: filter_none)

lemma ranging_resolve:
  assumes "ranging order s" and "spawner s = SpRange (name # rest)"
  shows "take (Suc (length (lookups (trace s)))) order = map fst (lookups (trace s)) @ [name]"
    and "rest = drop (Suc (length (polls s))) order"
    and "lookups (trace s) = started (polls s)"
proof -
  from assms have l: "lookups (trace s) = started (polls s)" and d: "drop (length (polls s)) order = name # rest"
    and t: "take (length (lookups (trace s))) order = map fst (lookups (trace s))"
    by (auto simp: ranging_def)
  from l have n: "length (lookups (trace s)) = length (polls s)" by (simp add: started_def)
  from drop_Cons_take [OF d] t n
  show "take (Suc (length (lookups (trace s)))) order = map fst (lookups (trace s)) @ [name]"
    and "rest = drop (Suc (length (polls s))) order"
    by simp_all
  show "lookups (trace s) = started (polls s)" by (rule l)
qed

lemma ranging_step:
  assumes "ranging order s" and "step a s = Some s'"
  shows "ranging order s'"
  using assms(2)
proof (cases rule: step_cases)
  case (resolve_panic name rest h info)
  with ranging_resolve [OF assms(1) resolve_panic(3)] show ?thesis
    by (simp add: ranging_def)
next
  case (resolve_err name rest h err)
  with ranging_resolve [OF assms(1) resolve_err(3)] show ?thesis
    by (simp add: ranging_def)
next
  case (resolve_ok name rest h id')
  with ranging_resolve [OF assms(1) resolve_ok(3)] show ?thesis
    by (simp add: ranging_def started_def)
qed (use assms(1) in \<open>auto simp: ranging_def split: spc.splits\<close>)

lemma receive_ids_snoc [simp]:
  "receive_ids i (tr @ [GetQueueID n r]) = receive_ids i tr"
  "receive_ids i (tr @ [ReceiveMessages k q r']) = receive_ids i tr @ (if k = i then [q] else [])"
  "receive_ids i (tr @ [ReportFailureMessage j q h w r'']) = receive_ids i tr"
  "receive_ids i (tr @ [ReportSuccessMessage j q h r'']) = receive_ids i tr"
  "receive_ids i (tr @ [Fatal g e]) = receive_ids i tr"
  by (simp_all add: receive_ids_def)

lemma fetched_snoc [simp]:
  "fetched i (tr @ [GetQueueID n r]) = fetched i tr"
  "fetched i (tr @ [ReceiveMessages k q (Returns (Inr msgs))]) = fetched i tr @ (if k = i then msgs else [])"
  "fetched i (tr @ [ReceiveMessages k q (Returns (Inl err))]) = fetched i tr"
  "fetched i (tr @ [ReceiveMessages k q (Panics info)]) = fetched i tr"
  "fetched i (tr @ [ReportFailureMessage j q h w r'']) = fetched i tr"
  "fetched i (tr @ [ReportSuccessMessage j q h r'']) = fetched i tr"
  "fetched i (tr @ [Fatal g e]) = fetched i tr"
  by (simp_all add: fetched_def)

lemma polled_step:
  assumes "polled s" and "step a s = Some s'"
  shows "polled s'"
  using assms(2)
proof (cases rule: step_cases)
  case (resolve_ok name rest h id')
  have "set (receive_ids i (trace s')) \<subseteq> {queueID (polls s' ! i)}" if "i < length (polls s')" for i
  proof (cases "i < length (polls s)")
    case True
    with assms(1) resolve_ok show ?thesis by (simp add: polled_def nth_append)
  next
    case False
    with assms(1) resolve_ok show ?thesis by (simp add: polled_def)
  qed
  with assms(1) resolve_ok show ?thesis by (simp add: polled_def)
qed (use assms(1) in \<open>auto simp: polled_def nth_list_update\<close>)

lemma batches_step:
  assumes "batches s" and "wired s" and "step a s = Some s'"
  shows "batches s'"
  using assms(3)
proof (cases rule: step_cases)
  case (resolve_ok name rest h id')
  have "dispatched (length (polls s)) (tasks s) = []"
    using assms(2) by (intro dispatched_none) (auto simp: wired_def)
  moreover have "fetched (length (polls s)) (trace s) = []"
    using assms(1) by (simp add: batches_def)
  ultimately have new: "fetched (length (polls s)) (trace s') =
      dispatched (length (polls s)) (tasks s') @ remaining (polls s' ! length (polls s))"
    using resolve_ok by (simp add: remaining_def)
  have "fetched i (trace s') = dispatched i (tasks s') @ remaining (polls s' ! i)"
    if "i < length (polls s')" for i
  proof (cases "i < length (polls s)")
    case True
    with assms(1) resolve_ok show ?thesis by (simp add: batches_def nth_append)
  next
    case False
    with that resolve_ok have "i = length (polls s)" by simp
    with new show ?thesis by simp
  qed
  with assms(1) resolve_ok show ?thesis by (simp add: batches_def)
next
  case (go i w msg rest)
  with assms(1) show ?thesis
    by (auto simp: batches_def nth_list_update remaining_def dispatched_def)
qed (use assms(1) in \<open>auto simp: batches_def nth_list_update remaining_def\<close>)

subsection \<open>Every reachable state satisfies the invariants\<close>

lemma invariant_Subscribe: "invariant t order (Subscribe t order)"
  by (simp add: invariant_def Subscribe_def wired_def joined_def accounted_def offered_def
      first_fatal_def fatals_def ranging_def lookups_def started_def polled_def receive_ids_def
      batches_def fetched_def winding_up_def report_calls_def report_results_def)

lemma invariant_step:
  assumes "invariant t order s" and "step a s = Some s'"
  shows "invariant t order s'"
  using assms handlers_step [OF assms(2)] wired_step joined_step accounted_step offered_step
    first_fatal_step ranging_step polled_step batches_step winding_up_step
  unfolding invariant_def by metis

lemma invariant_run:
  assumes "run acts (Subscribe t order) = Some s"
  shows "invariant t order s"
  using assms invariant_Subscribe invariant_step by (rule run_invariant)

subsection \<open>Consequences used in the properties\<close>

lemma started_lookups:
  assumes "ranging order s" and "i < length (polls s)"
  shows "(queueName (polls s ! i), Returns (Inr (queueID (polls s ! i)))) \<in> set (lookups (trace s))"
proof -
  have "(queueName (polls s ! i), Returns (Inr (queueID (polls s ! i)))) \<in> set (started (polls s))"
    using assms(2) unfolding started_def by (metis (mono_tags, lifting) nth_map nth_mem length_map)
  moreover have "set (started (polls s)) \<subseteq> set (lookups (trace s))"
  proof (cases "lookups (trace s) = started (polls s)")
    case True
    then show ?thesis by simp
  next
    case False
    with assms(1) have "butlast (lookups (trace s)) = started (polls s)"
      by (auto simp: ranging_def split: spc.splits)
    then show ?thesis by (metis in_set_butlastD subsetI)
  qed
  ultimately show ?thesis by blast
qed

lemma unique_key:
  "distinct (map fst xs) \<Longrightarrow> (k, v) \<in> set xs \<Longrightarrow> map snd (filter (\<lambda>x. fst x = k) xs) = [v]"
proof (induction xs)
  case Nil
  then show ?case by simp
next
  case (Cons x xs)
  show ?case
  proof (cases "fst x = k")
    case True
    with Cons.prems have "x = (k, v)"
      by (metis distinct.simps(2) fst_conv image_eqI list.simps(9) prod.collapse set_ConsD set_map)
    moreover from True Cons.prems have "filter (\<lambda>x. fst x = k) xs = []"
      by (auto simp: filter_empty_conv image_iff)
    ultimately show ?thesis by simp
  next
    case False
    with Cons show ?thesis by auto
  qed
qed

lemma resolutions_once:
  assumes "ranging order s" and "distinct order" and "i < length (polls s)"
  shows "resolutions (queueName (polls s ! i)) (trace s) = [Returns (Inr (queueID (polls s ! i)))]"
proof -
  have "map fst (lookups (trace s)) = take (length (lookups (trace s))) order"
    using assms(1) by (simp add: ranging_def)
  with assms(2) have "distinct (map fst (lookups (trace s)))" by simp
  from unique_key [OF this started_lookups [OF assms(1,3)]]
  show ?thesis by (simp add: resolutions_def)
qed

lemma resolutions_member:
  assumes "ranging order s" and "i < length (polls s)"
  shows "Returns (Inr (queueID (polls s ! i))) \<in> set (resolutions (queueName (polls s ! i)) (trace s))"
  using started_lookups [OF assms] by (force simp: resolutions_def)

lemma task_ok_calls:
  assumes "task_ok j tk tr" and "\<not> handler_panicked tk"
  shows "report_calls j tr = (if before_report (t_pc tk) then [] else expected_calls tk)"
  using assms by (cases "t_pc tk") (auto simp: task_ok_def before_report_def)

lemma task_ok_queue:
  assumes "task_ok j tk tr"
  shows "set (map call_queue (report_calls j tr)) \<subseteq> {t_id tk}"
  using assms
  by (cases "t_pc tk")
    (auto simp: task_ok_def expected_calls_def call_queue_def split: if_splits hres.splits)

lemma dispatched_member:
  "j < length ts \<Longrightarrow> t_msg (ts ! j) \<in> set (dispatched (t_owner (ts ! j)) ts)"
  using nth_mem [of j ts] by (auto simp: dispatched_def)

lemma caller_step: "step a s = Some s' \<Longrightarrow> caller s = Returned v \<Longrightarrow> caller s' = Returned v"
  by (cases rule: step_cases) auto

lemma caller_run:
  assumes "run acts s = Some s'" and "caller s = Returned v"
  shows "caller s' = Returned v"
  using assms(1,2)
proof (rule run_invariant)
  fix a x x' assume "caller x = Returned v" "step a x = Some x'"
  then show "caller x' = Returned v" using caller_step by blast
qed



lemma spawner_stopped_step:
  assumes "step a s = Some s'" and "\<forall>rest. spawner s \<noteq> SpRange rest"
  shows "(\<forall>rest. spawner s' \<noteq> SpRange rest) \<and> started (polls s') = started (polls s)
    \<and> map queueName (polls s') = map queueName (polls s)"
  using assms
  by (cases rule: step_cases) (auto simp: map_update_same)

lemma spawner_stopped_run:
  assumes "run acts s = Some s'" and "\<forall>rest. spawner s \<noteq> SpRange rest"
  shows "map queueName (polls s') = map queueName (polls s)"
proof -
  have "(\<forall>rest. spawner s' \<noteq> SpRange rest) \<and> map queueName (polls s') = map queueName (polls s)"
    using assms(1)
  proof (rule run_invariant)
    show "(\<forall>rest. spawner s \<noteq> SpRange rest) \<and> map queueName (polls s) = map queueName (polls s)"
      using assms(2) by simp
  next
    fix a x x'
    assume "(\<forall>rest. spawner x \<noteq> SpRange rest) \<and> map queueName (polls x) = map queueName (polls s)"
      and "step a x = Some x'"
    then show "(\<forall>rest. spawner x' \<noteq> SpRange rest) \<and> map queueName (polls x') = map queueName (polls s)"
      using spawner_stopped_step [of a x x'] by simp
  qed
  then show ?thesis by simp
qed

subsection \<open>Crashes and blocked senders\<close>

lemma receive_panics_snoc [simp]:
  "receive_panics (tr @ [GetQueueID n r]) = receive_panics tr"
  "receive_panics (tr @ [ReceiveMessages k q (Returns x)]) = receive_panics tr"
  "receive_panics (tr @ [ReceiveMessages k q (Panics info)]) = receive_panics tr @ [info]"
  "receive_panics (tr @ [ReportFailureMessage j q h w r'']) = receive_panics tr"
  "receive_panics (tr @ [ReportSuccessMessage j q h r'']) = receive_panics tr"
  "receive_panics (tr @ [Fatal g e]) = receive_panics tr"
  by (simp_all add: receive_panics_def)




lemma pending_step:
  assumes "step a s = Some s'" and "pending g s = Some e" and "a \<noteq> Deliver g"
  shows "pending g s' = Some e"
proof (cases g)
  case Spawner
  from assms(1) assms(2,3) Spawner show ?thesis
    by (cases rule: step_cases) (auto simp: pending_def split: spc.splits)
next
  case (Poll i)
  from assms(1) assms(2,3) Poll show ?thesis
    by (cases rule: step_cases)
      (auto simp: pending_def nth_append nth_list_update split: if_splits ppc.splits)
next
  case (Dispatch j)
  from assms(1) assms(2,3) Dispatch show ?thesis
    by (cases rule: step_cases)
      (auto simp: pending_def nth_append nth_list_update split: if_splits tpc.splits)
qed

lemma returned_no_deliver: "step a s = Some s' \<Longrightarrow> caller s = Returned v \<Longrightarrow> a \<noteq> Deliver g"
  by (auto simp: step_def deliver_def split: if_splits option.splits)

lemma blocked_run:
  assumes "run acts s = Some s'" and "caller s = Returned v" and "pending g s = Some e"
  shows "pending g s' = Some e"
proof -
  have "caller s' = Returned v \<and> pending g s' = Some e"
    using assms(1)
  proof (rule run_invariant)
    show "caller s = Returned v \<and> pending g s = Some e" using assms(2,3) by simp
  next
    fix a x x'
    assume "caller x = Returned v \<and> pending g x = Some e" and "step a x = Some x'"
    then show "caller x' = Returned v \<and> pending g x' = Some e"
      using caller_step [of a x x' v] pending_step [of a x x' g e] returned_no_deliver [of a x x' v g]
      by simp
  qed
  then show ?thesis by simp
qed

lemma spawner_blocked_step:
  "step a s = Some s' \<Longrightarrow> caller s = Returned v \<Longrightarrow> spawner s = SpSend err \<Longrightarrow>
     spawner s' = SpSend err"
  by (cases rule: step_cases) auto

lemma spawner_blocked_run:
  assumes "run acts s = Some s'" and "caller s = Returned v" and "spawner s = SpSend err"
  shows "spawner s' = SpSend err"
proof -
  have "caller s' = Returned v \<and> spawner s' = SpSend err"
    using assms(1)
  proof (rule run_invariant)
    show "caller s = Returned v \<and> spawner s = SpSend err" using assms(2,3) by simp
  next
    fix a x x'
    assume "caller x = Returned v \<and> spawner x = SpSend err" and "step a x = Some x'"
    then show "caller x' = Returned v \<and> spawner x' = SpSend err"
      using caller_step [of a x x' v] spawner_blocked_step [of a x x' v err] by simp
  qed
  then show ?thesis by simp
qed

lemmas eval_defs = after_def example_start_def example_defs step_defs

lemmas echo_defs = echo_state_def schedule_echo_def example_echo_def handleEcho_def eval_defs

lemmas late_nil_defs = late_nil_handler_panicked_def late_nil_handler_state_def
  schedule_late_nil_handler_def schedule_sibling_def example_registered_def eval_defs

lemmas late_resolve_defs = late_resolve_state_def schedule_late_resolve_def
  schedule_other_queue_def eval_defs

section \<open>Construction and registration\<close>

text \<open>
  C6. \<^verbatim>\<open>NewSubscriber\<close> returns an error exactly when the supplied limit is below 1:
  with limit 0 it returns the error, with limit 1 it returns a subscriber.
\<close>

theorem NewSubscriber_error_iff:
  "((\<exists>e. NewSubscriber (Some o') = Returns (Inl e)) \<longleftrightarrow> ConcurrencyMessageHandleLimit o' < 1)
   \<and> NewSubscriber (Some \<lparr>ConcurrencyMessageHandleLimit = 0\<rparr>)
       = Returns (Inl ''set 1 or more for ConcurrencyMessageHandleLimit'')
   \<and> NewSubscriber (Some \<lparr>ConcurrencyMessageHandleLimit = 1\<rparr>)
       = Returns (Inr \<lparr>handlers = Map.empty, soption = \<lparr>ConcurrencyMessageHandleLimit = 1\<rparr>,
           semaphore = \<lparr>cap = 1, buf = []\<rparr>\<rparr>)"
  by (simp add: NewSubscriber_def)

text \<open>
  C7. With a negative \<^verbatim>\<open>WaitTime\<close>, \<^verbatim>\<open>SetHandler\<close> returns an error and the
  receiver is what it was. With a \<^verbatim>\<open>WaitTime\<close> of 0 or more it returns nil, the
  registry holds the new binding under the name, every other name keeps its binding, and
  the other fields of the receiver are unchanged.
\<close>

theorem SetHandler_registry:
  "(sint (WaitTime o') < 0 \<longrightarrow>
      (\<exists>e. SetHandler t name h (Some o') = Returns (t, Some e)))
   \<and> (0 \<le> sint (WaitTime o') \<longrightarrow>
      (\<exists>t'. SetHandler t name h (Some o') = Returns (t', None)
          \<and> handlers t' name = Some \<lparr>handler = h, opt = o'\<rparr>
          \<and> (\<forall>other. other \<noteq> name \<longrightarrow> handlers t' other = handlers t other)
          \<and> soption t' = soption t \<and> semaphore t' = semaphore t))"
  by (simp add: SetHandler_def)

theorem SetHandler_registry_witness:
  "sint (WaitTime \<lparr>WaitTime = - 1\<rparr>) < 0
   \<and> (\<exists>e. SetHandler \<lparr>handlers = Map.empty, soption = \<lparr>ConcurrencyMessageHandleLimit = 1\<rparr>,
            semaphore = \<lparr>cap = 1, buf = []\<rparr>\<rparr> ''Queue1'' None (Some \<lparr>WaitTime = - 1\<rparr>)
          = Returns (\<lparr>handlers = Map.empty, soption = \<lparr>ConcurrencyMessageHandleLimit = 1\<rparr>,
            semaphore = \<lparr>cap = 1, buf = []\<rparr>\<rparr>, Some e))
   \<and> 0 \<le> sint (WaitTime \<lparr>WaitTime = 0\<rparr>)
   \<and> (\<exists>t'. SetHandler \<lparr>handlers = Map.empty, soption = \<lparr>ConcurrencyMessageHandleLimit = 1\<rparr>,
            semaphore = \<lparr>cap = 1, buf = []\<rparr>\<rparr> ''Queue1'' None (Some \<lparr>WaitTime = 0\<rparr>)
          = Returns (t', None)
        \<and> handlers t' ''Queue1'' = Some \<lparr>handler = None, opt = \<lparr>WaitTime = 0\<rparr>\<rparr>)"
  using SetHandler_registry [of "\<lparr>WaitTime = - 1\<rparr>"
      "\<lparr>handlers = Map.empty, soption = \<lparr>ConcurrencyMessageHandleLimit = 1\<rparr>,
        semaphore = \<lparr>cap = 1, buf = []\<rparr>\<rparr>" "''Queue1''" None]
    SetHandler_registry [of "\<lparr>WaitTime = 0\<rparr>"
      "\<lparr>handlers = Map.empty, soption = \<lparr>ConcurrencyMessageHandleLimit = 1\<rparr>,
        semaphore = \<lparr>cap = 1, buf = []\<rparr>\<rparr>" "''Queue1''" None]
  by auto

section \<open>The bound on concurrent handlers\<close>

text \<open>
  C2. Take the subscriber that \<^verbatim>\<open>NewSubscriber\<close> returns for an option, with any
  registry. In every state that a schedule of \<^verbatim>\<open>Subscribe\<close> reaches, the number of
  dispatch goroutines standing at the handler call, over all queues, is at most the
  \<^verbatim>\<open>ConcurrencyMessageHandleLimit\<close> of that option.
\<close>

theorem concurrency_limit:
  assumes "NewSubscriber (Some o') = Returns (Inr t0)"
    and "run acts (Subscribe (t0\<lparr>handlers := hs\<rparr>) order) = Some s"
  shows "int (executing s) \<le> ConcurrencyMessageHandleLimit o'"
proof -
  have t0: "cap (semaphore t0) = nat (ConcurrencyMessageHandleLimit o')" "buf (semaphore t0) = []"
    "1 \<le> ConcurrencyMessageHandleLimit o'"
    using assms(1) by (auto simp: NewSubscriber_def split: if_splits)
  have "permits (Subscribe (t0\<lparr>handlers := hs\<rparr>) order)"
    by (simp add: permits_def Subscribe_def t0)
  from permits_run [OF assms(2) this]
  have "permits s" "cap (semaphore (recv s)) = nat (ConcurrencyMessageHandleLimit o')"
    by (simp_all add: Subscribe_def t0)
  then have "executing s \<le> nat (ConcurrencyMessageHandleLimit o')"
    using executing_le_holding [of s] by (simp add: permits_def)
  then show ?thesis using t0(3) by linarith
qed

theorem concurrency_limit_witness:
  "NewSubscriber (Some \<lparr>ConcurrencyMessageHandleLimit = 1\<rparr>)
     = Returns (Inr (example_subscriber 1\<lparr>handlers := Map.empty\<rparr>))
   \<and> run schedule_permit (Subscribe (example_subscriber 1) example_order) \<noteq> None
   \<and> executing (the (run schedule_permit (Subscribe (example_subscriber 1) example_order))) = 1
   \<and> int (executing (the (run schedule_permit (Subscribe (example_subscriber 1) example_order)))) \<le> 1"
proof -
  have n: "NewSubscriber (Some \<lparr>ConcurrencyMessageHandleLimit = 1\<rparr>)
      = Returns (Inr (example_subscriber 1\<lparr>handlers := Map.empty\<rparr>))"
    by (simp add: NewSubscriber_def example_subscriber_def)
  have e: "(example_subscriber 1\<lparr>handlers := Map.empty\<rparr>)\<lparr>handlers := example_handlers\<rparr>
      = example_subscriber 1"
    by (simp add: example_subscriber_def)
  have r: "run schedule_permit (Subscribe (example_subscriber 1) example_order)
      = Some (the (run schedule_permit (Subscribe (example_subscriber 1) example_order)))"
    by (simp add: schedule_permit_def example_defs step_defs)
  have d: "run schedule_permit (Subscribe (example_subscriber 1) example_order) \<noteq> None"
    using r by (metis option.distinct(1))
  have x: "executing (the (run schedule_permit (Subscribe (example_subscriber 1) example_order))) = 1"
    by (simp add: schedule_permit_def example_defs step_defs executing_def)
  have c: "int (executing (the (run schedule_permit (Subscribe (example_subscriber 1) example_order)))) \<le> 1"
    using concurrency_limit [of "\<lparr>ConcurrencyMessageHandleLimit = 1\<rparr>" _ schedule_permit
        example_handlers example_order, OF n] r
    by (simp add: e)
  show ?thesis
    using n d x c by blast
qed

section \<open>Reports\<close>

text \<open>
  C1. In every state that a schedule of \<^verbatim>\<open>Subscribe\<close> reaches, for every dispatch
  goroutine: the binding it holds is the one registered under the name of its poll loop's
  queue, and the identifier it holds is a result of \<^verbatim>\<open>GetQueueID\<close> for that name. If its
  handler returns nil, the report calls it has made are none before its report call and
  afterwards exactly one \<^verbatim>\<open>ReportSuccessMessage\<close> with that identifier and the
  message's receipt handle, hence no \<^verbatim>\<open>ReportFailureMessage\<close>. If its handler returns
  an error, they are none before and afterwards exactly one \<^verbatim>\<open>ReportFailureMessage\<close>
  with that identifier, the receipt handle and the \<^verbatim>\<open>WaitTime\<close> of the binding, hence
  no \<^verbatim>\<open>ReportSuccessMessage\<close>. A goroutine that stands at its report call is never
  blocked there: the call can be made, whatever the client answers.
\<close>

theorem report_once:
  assumes "run acts (Subscribe t order) = Some s" and "j < length (tasks s)"
  shows "handlers t (queueName (polls s ! t_owner (tasks s ! j))) = Some (t_handler (tasks s ! j))
    \<and> Returns (Inr (t_id (tasks s ! j)))
         \<in> set (resolutions (queueName (polls s ! t_owner (tasks s ! j))) (trace s))
    \<and> (call_handler (tasks s ! j) = HNil \<longrightarrow>
         report_calls j (trace s) =
           (if before_report (t_pc (tasks s ! j)) then []
            else [SuccessCall (t_id (tasks s ! j)) (ReceiptHandle (t_msg (tasks s ! j)))]))
    \<and> (\<forall>err. call_handler (tasks s ! j) = HErr err \<longrightarrow>
         report_calls j (trace s) =
           (if before_report (t_pc (tasks s ! j)) then []
            else [FailureCall (t_id (tasks s ! j)) (ReceiptHandle (t_msg (tasks s ! j)))
                    (WaitTime (opt (t_handler (tasks s ! j))))]))
    \<and> (\<not> crashed s
          \<and> (t_pc (tasks s ! j) = TReportFailure \<or> t_pc (tasks s ! j) = TReportSuccess) \<longrightarrow>
         map_option (\<lambda>s'. t_pc (tasks s' ! j)) (step (Report j r) s) = Some (after_report r))"
proof -
  let ?tk = "tasks s ! j"
  from invariant_run [OF assms(1)]
  have h: "handlers (recv s) = handlers t" and w: "wired s" and a: "accounted s"
    and r: "ranging order s"
    by (simp_all add: invariant_def)
  from w assms(2) have o: "t_owner ?tk < length (polls s)"
    and th: "t_handler ?tk = p_handler (polls s ! t_owner ?tk)"
    and ti: "t_id ?tk = p_id (polls s ! t_owner ?tk)"
    by (simp_all add: wired_def)
  from w o have pi: "p_id (polls s ! t_owner ?tk) = queueID (polls s ! t_owner ?tk)"
    and ph: "handlers (recv s) (queueName (polls s ! t_owner ?tk)) = Some (p_handler (polls s ! t_owner ?tk))"
    by (simp_all add: wired_def)
  have 1: "handlers t (queueName (polls s ! t_owner ?tk)) = Some (t_handler ?tk)"
    using h ph th by simp
  have 2: "Returns (Inr (t_id ?tk)) \<in> set (resolutions (queueName (polls s ! t_owner ?tk)) (trace s))"
    using resolutions_member [OF r o] ti pi by simp
  from a assms(2) have ok: "task_ok j ?tk (trace s)" by (simp add: accounted_def)
  have 3: "report_calls j (trace s) =
      (if before_report (t_pc ?tk) then [] else [SuccessCall (t_id ?tk) (ReceiptHandle (t_msg ?tk))])"
    if "call_handler ?tk = HNil"
    using task_ok_calls [OF ok] that by (simp add: handler_panicked_def expected_calls_def)
  have 4: "report_calls j (trace s) =
      (if before_report (t_pc ?tk) then []
       else [FailureCall (t_id ?tk) (ReceiptHandle (t_msg ?tk)) (WaitTime (opt (t_handler ?tk)))])"
    if "call_handler ?tk = HErr err" for err
    using task_ok_calls [OF ok] that by (simp add: handler_panicked_def expected_calls_def)
  have 5: "map_option (\<lambda>s'. t_pc (tasks s' ! j)) (step (Report j r) s) = Some (after_report r)"
    if "\<not> crashed s \<and> (t_pc ?tk = TReportFailure \<or> t_pc ?tk = TReportSuccess)"
    using that assms(2) by (auto simp: step_def report_def)
  from 1 2 3 4 5 show ?thesis by simp
qed

theorem report_once_witness:
  "run schedule_reports example_start \<noteq> None
   \<and> length (tasks (after schedule_reports)) = 2
   \<and> call_handler (tasks (after schedule_reports) ! 0) = HErr ''error handleQueue1''
   \<and> report_calls 0 (trace (after schedule_reports)) = [FailureCall ''url1'' ''rh1'' 5]
   \<and> call_handler (tasks (after schedule_reports) ! 1) = HNil
   \<and> report_calls 1 (trace (after schedule_reports)) = [SuccessCall ''url2'' ''rh2'']
   \<and> run (schedule_handler @ [Invoke 0]) example_start \<noteq> None
   \<and> t_pc (tasks (after (schedule_handler @ [Invoke 0])) ! 0) = TReportFailure
   \<and> report_calls 0 (trace (after (schedule_handler @ [Invoke 0]))) = []
   \<and> map_option (\<lambda>s'. t_pc (tasks s' ! 0))
         (step (Report 0 (Returns None)) (after (schedule_handler @ [Invoke 0]))) = Some TDone"
proof -
  have r: "run schedule_reports (Subscribe (example_subscriber 1) example_order)
      = Some (after schedule_reports)"
    by (simp add: schedule_reports_def eval_defs)
  have n: "length (tasks (after schedule_reports)) = 2"
    by (simp add: schedule_reports_def eval_defs)
  have t0: "call_handler (tasks (after schedule_reports) ! 0) = HErr ''error handleQueue1''"
    "\<not> before_report (t_pc (tasks (after schedule_reports) ! 0))"
    "t_id (tasks (after schedule_reports) ! 0) = ''url1''"
    "ReceiptHandle (t_msg (tasks (after schedule_reports) ! 0)) = ''rh1''"
    "WaitTime (opt (t_handler (tasks (after schedule_reports) ! 0))) = 5"
    by (simp_all add: schedule_reports_def eval_defs before_report_def)
  have t1: "call_handler (tasks (after schedule_reports) ! 1) = HNil"
    "\<not> before_report (t_pc (tasks (after schedule_reports) ! 1))"
    "t_id (tasks (after schedule_reports) ! 1) = ''url2''"
    "ReceiptHandle (t_msg (tasks (after schedule_reports) ! 1)) = ''rh2''"
    by (simp_all add: schedule_reports_def eval_defs before_report_def)
  have c0: "report_calls 0 (trace (after schedule_reports)) = [FailureCall ''url1'' ''rh1'' 5]"
    using report_once [OF r, of 0] n t0 by simp
  have c1: "report_calls 1 (trace (after schedule_reports)) = [SuccessCall ''url2'' ''rh2'']"
    using report_once [OF r, of 1] n t1 by simp
  have r': "run (schedule_handler @ [Invoke 0]) (Subscribe (example_subscriber 1) example_order)
      = Some (after (schedule_handler @ [Invoke 0]))"
    by (simp add: schedule_handler_def eval_defs)
  have h: "0 < length (tasks (after (schedule_handler @ [Invoke 0])))"
    "t_pc (tasks (after (schedule_handler @ [Invoke 0])) ! 0) = TReportFailure"
    "\<not> crashed (after (schedule_handler @ [Invoke 0]))"
    "call_handler (tasks (after (schedule_handler @ [Invoke 0])) ! 0) = HErr ''error handleQueue1''"
    by (simp_all add: schedule_handler_def eval_defs)
  have b: "before_report TReportFailure" by (simp add: before_report_def)
  have e: "report_calls 0 (trace (after (schedule_handler @ [Invoke 0]))) = []"
    using report_once [OF r' h(1)] h(2,4) b by simp
  have g: "map_option (\<lambda>s'. t_pc (tasks s' ! 0))
      (step (Report 0 (Returns None)) (after (schedule_handler @ [Invoke 0]))) = Some TDone"
    using report_once [OF r' h(1), of "Returns None"] h(2,3) by (simp add: after_report_def)
  from r have n0: "run schedule_reports example_start \<noteq> None"
    by (simp add: example_start_def)
  from r' have n1: "run (schedule_handler @ [Invoke 0]) example_start \<noteq> None"
    by (simp add: example_start_def)
  from n0 n t0(1) t1(1) c0 c1 n1 h(2) e g show ?thesis by blast
qed

section \<open>The barrier of a batch\<close>

text \<open>
  C3. Whenever a poll loop can make its next \<^verbatim>\<open>ReceiveMessages\<close> call, every
  message it has received so far has a dispatch goroutine, and each of these goroutines
  is past \<^verbatim>\<open>wgMessage.Done()\<close> and has concluded: its report call has returned, or a
  value it sent on \<^verbatim>\<open>chFatal\<close> (the error of its report call, or a recovered panic)
  has been received.
\<close>

theorem fetch_after_batch:
  assumes "run acts (Subscribe t order) = Some s" and "step (Receive i r) s = Some s'"
  shows "fetched i (trace s) = dispatched i (tasks s)
    \<and> (\<forall>j<length (tasks s). t_owner (tasks s ! j) = i \<longrightarrow>
          settled (tasks s ! j) \<and> concluded j (trace s))"
proof -
  from invariant_run [OF assms(1)]
  have jo: "joined s" and b: "batches s" and wu: "winding_up s"
    by (simp_all add: invariant_def)
  from assms(2) have i: "i < length (polls s)" and pc: "p_pc (polls s ! i) = PReceive"
    by (auto simp: step_def receive_def split: if_splits ppc.splits)
  from b i pc have 1: "fetched i (trace s) = dispatched i (tasks s)"
    by (simp add: batches_def remaining_def)
  have 2: "settled (tasks s ! j) \<and> concluded j (trace s)"
    if j: "j < length (tasks s)" and o: "t_owner (tasks s ! j) = i" for j
  proof -
    have st: "settled (tasks s ! j)"
    proof (rule ccontr)
      assume "\<not> settled (tasks s ! j)"
      with jo j obtain ms where "p_pc (polls s ! t_owner (tasks s ! j)) = PRange (t_wg (tasks s ! j)) ms"
        by (auto simp: joined_def)
      with o pc show False by simp
    qed
    then have "past_send (t_pc (tasks s ! j))" by (auto simp: settled_def past_send_def)
    with wu j have "concluded j (trace s)" by (simp add: winding_up_def)
    with st show ?thesis by simp
  qed
  from 1 2 show ?thesis by simp
qed

theorem fetch_after_batch_witness:
  "run schedule_reports example_start \<noteq> None
   \<and> step (Receive 0 (Returns (Inr [msg2]))) (after schedule_reports) \<noteq> None
   \<and> t_owner (tasks (after schedule_reports) ! 0) = 0
   \<and> fetched 0 (trace (after schedule_reports)) = [msg1]
   \<and> dispatched 0 (tasks (after schedule_reports)) = [msg1]
   \<and> settled (tasks (after schedule_reports) ! 0)
   \<and> concluded 0 (trace (after schedule_reports))"
proof -
  have r: "run schedule_reports (Subscribe (example_subscriber 1) example_order)
      = Some (after schedule_reports)"
    by (simp add: schedule_reports_def eval_defs)
  have s: "step (Receive 0 (Returns (Inr [msg2]))) (after schedule_reports)
      = Some (the (step (Receive 0 (Returns (Inr [msg2]))) (after schedule_reports)))"
    by (simp add: schedule_reports_def eval_defs)
  have f: "length (tasks (after schedule_reports)) = 2"
    "t_owner (tasks (after schedule_reports) ! 0) = 0"
    "fetched 0 (trace (after schedule_reports)) = [msg1]"
    by (simp_all add: schedule_reports_def eval_defs fetched_def)
  from fetch_after_batch [OF r s] f
  have "dispatched 0 (tasks (after schedule_reports)) = [msg1]"
    "settled (tasks (after schedule_reports) ! 0)"
    "concluded 0 (trace (after schedule_reports))"
    by simp_all
  moreover from r have "run schedule_reports example_start \<noteq> None"
    by (simp add: example_start_def)
  moreover from s have "step (Receive 0 (Returns (Inr [msg2]))) (after schedule_reports) \<noteq> None"
    by (metis option.distinct(1))
  ultimately show ?thesis using f by simp
qed

section \<open>The fatal error\<close>






section \<open>Queues, identifiers and handlers\<close>

text \<open>
  C8. With an iteration order that yields every registered name once, in every reachable
  state: for every poll loop, \<^verbatim>\<open>GetQueueID\<close> has been called exactly once for its
  queue's name and returned its \<^verbatim>\<open>queueID\<close>, all its \<^verbatim>\<open>ReceiveMessages\<close> calls
  carry that identifier, and the binding it holds is the one registered under the name;
  for every dispatch goroutine, its message is one that its poll loop received, its
  binding is that of its poll loop, and its report calls carry the poll loop's
  identifier; and the call of line 105 of a dispatch goroutine is the call of the handler
  registered under the name of its poll loop's queue, with the \<^verbatim>\<open>MessageID\<close> and the
  \<^verbatim>\<open>Body\<close> of its message: the goroutine goes on as that handler's result says (a nil
  handler panics).
\<close>

theorem queue_wiring:
  assumes "run acts (Subscribe t order) = Some s" and "iteration_order t order"
  shows "(\<forall>i<length (polls s).
            resolutions (queueName (polls s ! i)) (trace s) = [Returns (Inr (queueID (polls s ! i)))]
            \<and> set (receive_ids i (trace s)) \<subseteq> {queueID (polls s ! i)}
            \<and> handlers t (queueName (polls s ! i)) = Some (p_handler (polls s ! i)))
    \<and> (\<forall>j<length (tasks s).
            t_owner (tasks s ! j) < length (polls s)
            \<and> t_msg (tasks s ! j) \<in> set (fetched (t_owner (tasks s ! j)) (trace s))
            \<and> t_handler (tasks s ! j) = p_handler (polls s ! t_owner (tasks s ! j))
            \<and> set (map call_queue (report_calls j (trace s)))
                 \<subseteq> {queueID (polls s ! t_owner (tasks s ! j))})
    \<and> (\<forall>j<length (tasks s). \<not> crashed s \<and> t_pc (tasks s ! j) = THandler \<longrightarrow>
          (case handlers t (queueName (polls s ! t_owner (tasks s ! j))) of
             None \<Rightarrow> False
           | Some b \<Rightarrow>
               map_option (\<lambda>s'. t_pc (tasks s' ! j)) (step (Invoke j) s)
                 = Some (case handler b of
                           None \<Rightarrow> TRecover nil_dereference
                         | Some h \<Rightarrow>
                             (case h (MessageID (t_msg (tasks s ! j))) (Body (t_msg (tasks s ! j))) of
                                HNil \<Rightarrow> TReportSuccess
                              | HErr err \<Rightarrow> TReportFailure
                              | HPanic info \<Rightarrow> TRecover info))))"
proof -
  from invariant_run [OF assms(1)]
  have h: "handlers (recv s) = handlers t" and w: "wired s" and a: "accounted s"
    and r: "ranging order s" and p: "polled s" and b: "batches s"
    by (simp_all add: invariant_def)
  from assms(2) have d: "distinct order" by (simp add: iteration_order_def)
  have 1: "resolutions (queueName (polls s ! i)) (trace s) = [Returns (Inr (queueID (polls s ! i)))]
      \<and> set (receive_ids i (trace s)) \<subseteq> {queueID (polls s ! i)}
      \<and> handlers t (queueName (polls s ! i)) = Some (p_handler (polls s ! i))"
    if "i < length (polls s)" for i
    using resolutions_once [OF r d that] p w h that by (simp add: polled_def wired_def)
  have 2: "t_owner (tasks s ! j) < length (polls s)
      \<and> t_msg (tasks s ! j) \<in> set (fetched (t_owner (tasks s ! j)) (trace s))
      \<and> t_handler (tasks s ! j) = p_handler (polls s ! t_owner (tasks s ! j))
      \<and> set (map call_queue (report_calls j (trace s))) \<subseteq> {queueID (polls s ! t_owner (tasks s ! j))}"
    if j: "j < length (tasks s)" for j
  proof -
    from w j have o: "t_owner (tasks s ! j) < length (polls s)"
      and th: "t_handler (tasks s ! j) = p_handler (polls s ! t_owner (tasks s ! j))"
      and ti: "t_id (tasks s ! j) = p_id (polls s ! t_owner (tasks s ! j))"
      by (simp_all add: wired_def)
    from w o have pi: "p_id (polls s ! t_owner (tasks s ! j)) = queueID (polls s ! t_owner (tasks s ! j))"
      by (simp add: wired_def)
    from b o have "fetched (t_owner (tasks s ! j)) (trace s) =
        dispatched (t_owner (tasks s ! j)) (tasks s) @ remaining (polls s ! t_owner (tasks s ! j))"
      by (simp add: batches_def)
    with dispatched_member [OF j]
    have m: "t_msg (tasks s ! j) \<in> set (fetched (t_owner (tasks s ! j)) (trace s))" by simp
    from a j have "task_ok j (tasks s ! j) (trace s)" by (simp add: accounted_def)
    from task_ok_queue [OF this] ti pi
    have "set (map call_queue (report_calls j (trace s))) \<subseteq> {queueID (polls s ! t_owner (tasks s ! j))}"
      by simp
    with o th m show ?thesis by simp
  qed
  have 3: "(case handlers t (queueName (polls s ! t_owner (tasks s ! j))) of
             None \<Rightarrow> False
           | Some b \<Rightarrow>
               map_option (\<lambda>s'. t_pc (tasks s' ! j)) (step (Invoke j) s)
                 = Some (case handler b of
                           None \<Rightarrow> TRecover nil_dereference
                         | Some h \<Rightarrow>
                             (case h (MessageID (t_msg (tasks s ! j))) (Body (t_msg (tasks s ! j))) of
                                HNil \<Rightarrow> TReportSuccess
                              | HErr err \<Rightarrow> TReportFailure
                              | HPanic info \<Rightarrow> TRecover info)))"
    if j: "j < length (tasks s)" and c: "\<not> crashed s \<and> t_pc (tasks s ! j) = THandler" for j
  proof -
    from 2 [OF j] have o: "t_owner (tasks s ! j) < length (polls s)"
      and th: "t_handler (tasks s ! j) = p_handler (polls s ! t_owner (tasks s ! j))"
      by simp_all
    from 1 [OF o] th
    have reg: "handlers t (queueName (polls s ! t_owner (tasks s ! j))) = Some (t_handler (tasks s ! j))"
      by simp
    have "map_option (\<lambda>s'. t_pc (tasks s' ! j)) (step (Invoke j) s)
        = Some (after_handler (call_handler (tasks s ! j)))"
      using j c by (simp add: step_def invoke_def)
    with reg show ?thesis
      by (simp add: after_handler_def call_handler_def split: option.splits hres.splits)
  qed
  from 1 2 3 show ?thesis by simp
qed

theorem queue_wiring_witness:
  "run schedule_reports example_start \<noteq> None
   \<and> iteration_order (example_subscriber 1) example_order
   \<and> length (polls (after schedule_reports)) = 2
   \<and> queueName (polls (after schedule_reports) ! 1) = ''Queue2''
   \<and> queueID (polls (after schedule_reports) ! 1) = ''url2''
   \<and> resolutions ''Queue2'' (trace (after schedule_reports)) = [Returns (Inr ''url2'')]
   \<and> set (receive_ids 1 (trace (after schedule_reports))) \<subseteq> {''url2''}
   \<and> example_handlers ''Queue2'' = Some (p_handler (polls (after schedule_reports) ! 1))
   \<and> length (tasks (after schedule_reports)) = 2
   \<and> t_owner (tasks (after schedule_reports) ! 1) = 1
   \<and> t_msg (tasks (after schedule_reports) ! 1) \<in> set (fetched 1 (trace (after schedule_reports)))
   \<and> t_handler (tasks (after schedule_reports) ! 1) = p_handler (polls (after schedule_reports) ! 1)
   \<and> set (map call_queue (report_calls 1 (trace (after schedule_reports)))) \<subseteq> {''url2''}
   \<and> run schedule_echo (Subscribe example_echo [''Queue1'', ''Queue2'']) \<noteq> None
   \<and> iteration_order example_echo [''Queue1'', ''Queue2'']
   \<and> \<not> crashed echo_state
   \<and> t_pc (tasks echo_state ! 0) = THandler
   \<and> t_pc (tasks echo_state ! 1) = THandler
   \<and> map_option (\<lambda>s'. t_pc (tasks s' ! 0)) (step (Invoke 0) echo_state)
        = Some (TRecover ''m1/test-body'')
   \<and> map_option (\<lambda>s'. t_pc (tasks s' ! 1)) (step (Invoke 1) echo_state) = Some TReportSuccess"
proof -
  have r: "run schedule_reports (Subscribe (example_subscriber 1) example_order)
      = Some (after schedule_reports)"
    by (simp add: schedule_reports_def eval_defs)
  have i: "iteration_order (example_subscriber 1) example_order"
    by (auto simp: iteration_order_def example_defs)
  have f: "length (polls (after schedule_reports)) = 2"
    "queueName (polls (after schedule_reports) ! 1) = ''Queue2''"
    "queueID (polls (after schedule_reports) ! 1) = ''url2''"
    "length (tasks (after schedule_reports)) = 2"
    "t_owner (tasks (after schedule_reports) ! 1) = 1"
    by (simp_all add: schedule_reports_def eval_defs)
  have h: "handlers (example_subscriber 1) = example_handlers"
    by (simp add: example_subscriber_def)
  note w = queue_wiring [OF r i]
  from w [THEN conjunct1, rule_format, of 1] f h
  have a: "resolutions ''Queue2'' (trace (after schedule_reports)) = [Returns (Inr ''url2'')]
      \<and> set (receive_ids 1 (trace (after schedule_reports))) \<subseteq> {''url2''}
      \<and> example_handlers ''Queue2'' = Some (p_handler (polls (after schedule_reports) ! 1))"
    by simp
  from w [THEN conjunct2, THEN conjunct1, rule_format, of 1] f
  have b: "t_msg (tasks (after schedule_reports) ! 1) \<in> set (fetched 1 (trace (after schedule_reports)))
      \<and> t_handler (tasks (after schedule_reports) ! 1) = p_handler (polls (after schedule_reports) ! 1)
      \<and> set (map call_queue (report_calls 1 (trace (after schedule_reports)))) \<subseteq> {''url2''}"
    by simp
  from r have n: "run schedule_reports example_start \<noteq> None"
    by (simp add: example_start_def)
  have r': "run schedule_echo (Subscribe example_echo [''Queue1'', ''Queue2'']) = Some echo_state"
    by (simp add: echo_defs)
  have i': "iteration_order example_echo [''Queue1'', ''Queue2'']"
    by (auto simp: iteration_order_def example_echo_def)
  have g: "length (tasks echo_state) = 2" "\<not> crashed echo_state"
    "t_pc (tasks echo_state ! 0) = THandler" "t_pc (tasks echo_state ! 1) = THandler"
    by (simp_all add: echo_defs)
  have q: "handlers example_echo (queueName (polls echo_state ! t_owner (tasks echo_state ! 0)))
      = Some \<lparr>handler = Some handleEcho, opt = \<lparr>WaitTime = 0\<rparr>\<rparr>"
    "handlers example_echo (queueName (polls echo_state ! t_owner (tasks echo_state ! 1)))
      = Some \<lparr>handler = Some handleQueue2, opt = \<lparr>WaitTime = 0\<rparr>\<rparr>"
    "t_msg (tasks echo_state ! 0) = msg1" "t_msg (tasks echo_state ! 1) = msg2"
    by (simp_all add: echo_state_def schedule_echo_def example_echo_def eval_defs)
  note w' = queue_wiring [OF r' i', THEN conjunct2, THEN conjunct2, rule_format]
  from w' [of 0] g q(1,3)
  have c0: "map_option (\<lambda>s'. t_pc (tasks s' ! 0)) (step (Invoke 0) echo_state)
      = Some (TRecover ''m1/test-body'')"
    by (simp add: handleEcho_def msg1_def)
  from w' [of 1] g q(2,4)
  have c1: "map_option (\<lambda>s'. t_pc (tasks s' ! 1)) (step (Invoke 1) echo_state) = Some TReportSuccess"
    by (simp add: handleQueue2_def msg2_def)
  from r' have n': "run schedule_echo (Subscribe example_echo [''Queue1'', ''Queue2'']) \<noteq> None"
    by simp
  from n i f a b n' i' g(2,3,4) c0 c1 show ?thesis by blast
qed

text \<open>
  C9, amended. As stated the claim fails: once \<^verbatim>\<open>Subscribe\<close> has returned an earlier
  error, the error of the recovered panic is never delivered (the schedule is given after
  the witness). What holds: \<^verbatim>\<open>SetHandler\<close> with a nil
  handler and a \<^verbatim>\<open>WaitTime\<close> of 0 or more returns nil. A dispatch goroutine of that
  queue that stands at the handler call holds the nil handler; its call panics, the
  deferred function recovers the panic and stands at the send of the error on
  \<^verbatim>\<open>chFatal\<close>. While the caller of \<^verbatim>\<open>Subscribe\<close> is still blocked the send goes
  through, the caller returns that error and the goroutine goes on to
  \<^verbatim>\<open>wgMessage.Done()\<close>. When the caller has already returned, the send cannot go
  through, and in every continuation the goroutine is still blocked sending that error
  and the caller's result is unchanged.
\<close>

theorem nil_handler_recovered:
  assumes "SetHandler t0 name None (Some o') = Returns (t, e)" and "0 \<le> sint (WaitTime o')"
    and "run acts (Subscribe t order) = Some s" and "j < length (tasks s)"
    and "queueName (polls s ! t_owner (tasks s ! j)) = name"
    and "t_pc (tasks s ! j) = THandler" and "\<not> crashed s"
    and "run acts'
           (s\<lparr>tasks := (tasks s)[j := (tasks s ! j)\<lparr>t_pc := TRecover nil_dereference\<rparr>]\<rparr>) = Some s2"
  shows "e = None
    \<and> handler (t_handler (tasks s ! j)) = None
    \<and> step (Invoke j) s
        = Some (s\<lparr>tasks := (tasks s)[j := (tasks s ! j)\<lparr>t_pc := TRecover nil_dereference\<rparr>]\<rparr>)
    \<and> pending (Dispatch j)
          (s\<lparr>tasks := (tasks s)[j := (tasks s ! j)\<lparr>t_pc := TRecover nil_dereference\<rparr>]\<rparr>)
        = Some nil_dereference
    \<and> (caller s = Receiving \<longrightarrow>
          map_option (\<lambda>s'. (caller s', t_pc (tasks s' ! j)))
            (step (Deliver (Dispatch j))
               (s\<lparr>tasks := (tasks s)[j := (tasks s ! j)\<lparr>t_pc := TRecover nil_dereference\<rparr>]\<rparr>))
          = Some (Returned (Some nil_dereference), TDone))
    \<and> (caller s \<noteq> Receiving \<longrightarrow>
          step (Deliver (Dispatch j))
            (s\<lparr>tasks := (tasks s)[j := (tasks s ! j)\<lparr>t_pc := TRecover nil_dereference\<rparr>]\<rparr>) = None
          \<and> pending (Dispatch j) s2 = Some nil_dereference
          \<and> caller s2 = caller s)"
proof -
  let ?s1 = "s\<lparr>tasks := (tasks s)[j := (tasks s ! j)\<lparr>t_pc := TRecover nil_dereference\<rparr>]\<rparr>"
  from assms(1,2) have e: "e = None" and t: "handlers t name = Some \<lparr>handler = None, opt = o'\<rparr>"
    by (auto simp: SetHandler_def split: if_splits)
  from invariant_run [OF assms(3)]
  have h: "handlers (recv s) = handlers t" and w: "wired s"
    by (simp_all add: invariant_def)
  from w assms(4) have o: "t_owner (tasks s ! j) < length (polls s)"
    and th: "t_handler (tasks s ! j) = p_handler (polls s ! t_owner (tasks s ! j))"
    by (simp_all add: wired_def)
  from w o have "handlers (recv s) (queueName (polls s ! t_owner (tasks s ! j)))
      = Some (p_handler (polls s ! t_owner (tasks s ! j)))"
    by (simp add: wired_def)
  with h assms(5) t th have "t_handler (tasks s ! j) = \<lparr>handler = None, opt = o'\<rparr>"
    by simp
  then have n: "handler (t_handler (tasks s ! j)) = None"
    by simp
  have i: "step (Invoke j) s = Some ?s1"
    using assms(4,6,7) n by (simp add: step_def invoke_def call_handler_def after_handler_def)
  have p: "pending (Dispatch j) ?s1 = Some nil_dereference"
    using assms(4) by (simp add: pending_def)
  have d: "map_option (\<lambda>s'. (caller s', t_pc (tasks s' ! j))) (step (Deliver (Dispatch j)) ?s1)
      = Some (Returned (Some nil_dereference), TDone)" if "caller s = Receiving"
    using that assms(4,7) by (simp add: step_def deliver_def pending_def sent_def)
  have b: "step (Deliver (Dispatch j)) ?s1 = None \<and> pending (Dispatch j) s2 = Some nil_dereference
      \<and> caller s2 = caller s" if "caller s \<noteq> Receiving"
  proof -
    from that obtain v where v: "caller ?s1 = Returned v" "caller s = Returned v"
      by (cases "caller s") simp_all
    then have "step (Deliver (Dispatch j)) ?s1 = None"
      by (simp add: step_def deliver_def split: option.splits)
    moreover from blocked_run [OF assms(8) v(1) p] have "pending (Dispatch j) s2 = Some nil_dereference" .
    moreover from caller_run [OF assms(8) v(1)] v(2) have "caller s2 = caller s" by simp
    ultimately show ?thesis by simp
  qed
  from e n i p d b show ?thesis by simp
qed

theorem nil_handler_recovered_witness:
  "SetHandler (example_subscriber 1) ''Queue3'' None (Some \<lparr>WaitTime = 0\<rparr>)
     = Returns (example_registered, None)
   \<and> run schedule_nil_handler (Subscribe example_registered example_order) \<noteq> None
   \<and> queueName (polls nil_handler_state ! t_owner (tasks nil_handler_state ! 0)) = ''Queue3''
   \<and> t_pc (tasks nil_handler_state ! 0) = THandler
   \<and> caller nil_handler_state = Receiving
   \<and> handler (t_handler (tasks nil_handler_state ! 0)) = None
   \<and> map_option (\<lambda>s. t_pc (tasks s ! 0)) (step (Invoke 0) nil_handler_state)
        = Some (TRecover nil_dereference)
   \<and> map_option (\<lambda>s'. (caller s', t_pc (tasks s' ! 0)))
        (step (Deliver (Dispatch 0)) (the (step (Invoke 0) nil_handler_state)))
        = Some (Returned (Some nil_dereference), TDone)
   \<and> run schedule_late_nil_handler (Subscribe example_registered example_order) \<noteq> None
   \<and> caller late_nil_handler_state \<noteq> Receiving
   \<and> run schedule_sibling late_nil_handler_panicked \<noteq> None
   \<and> step (Deliver (Dispatch 0)) late_nil_handler_panicked = None
   \<and> pending (Dispatch 0)
        (the (run schedule_sibling late_nil_handler_panicked))
        = Some nil_dereference"
proof -
  have s: "SetHandler (example_subscriber 1) ''Queue3'' None (Some \<lparr>WaitTime = 0\<rparr>)
      = Returns (example_registered, None)"
    by (simp add: SetHandler_def example_registered_def)
  have w: "0 \<le> sint (WaitTime \<lparr>WaitTime = 0\<rparr>)" by simp
  have r: "run schedule_nil_handler (Subscribe example_registered example_order)
      = Some nil_handler_state"
    by (simp add: nil_handler_state_def schedule_nil_handler_def example_registered_def eval_defs)
  have f: "0 < length (tasks nil_handler_state)"
    "queueName (polls nil_handler_state ! t_owner (tasks nil_handler_state ! 0)) = ''Queue3''"
    "t_pc (tasks nil_handler_state ! 0) = THandler" "\<not> crashed nil_handler_state"
    "caller nil_handler_state = Receiving"
    by (simp_all add: nil_handler_state_def schedule_nil_handler_def example_registered_def eval_defs)
  have e: "run [] (nil_handler_state\<lparr>tasks := (tasks nil_handler_state)
      [0 := (tasks nil_handler_state ! 0)\<lparr>t_pc := TRecover nil_dereference\<rparr>]\<rparr>)
      = Some (nil_handler_state\<lparr>tasks := (tasks nil_handler_state)
      [0 := (tasks nil_handler_state ! 0)\<lparr>t_pc := TRecover nil_dereference\<rparr>]\<rparr>)"
    by simp
  note n = nil_handler_recovered [OF s w r f(1,2,3,4) e]
  from n have h: "handler (t_handler (tasks nil_handler_state ! 0)) = None" by blast
  from n have i: "step (Invoke 0) nil_handler_state
      = Some (nil_handler_state\<lparr>tasks := (tasks nil_handler_state)
          [0 := (tasks nil_handler_state ! 0)\<lparr>t_pc := TRecover nil_dereference\<rparr>]\<rparr>)"
    by blast
  from i f(1) have p: "map_option (\<lambda>s. t_pc (tasks s ! 0)) (step (Invoke 0) nil_handler_state)
      = Some (TRecover nil_dereference)"
    by simp
  from n f(5) i have d: "map_option (\<lambda>s'. (caller s', t_pc (tasks s' ! 0)))
      (step (Deliver (Dispatch 0)) (the (step (Invoke 0) nil_handler_state)))
      = Some (Returned (Some nil_dereference), TDone)"
    by simp
  from r have n0: "run schedule_nil_handler (Subscribe example_registered example_order) \<noteq> None"
    by simp
  have r': "run schedule_late_nil_handler (Subscribe example_registered example_order)
      = Some late_nil_handler_state"
    by (simp add: late_nil_defs)
  have f': "0 < length (tasks late_nil_handler_state)"
    "queueName (polls late_nil_handler_state ! t_owner (tasks late_nil_handler_state ! 0)) = ''Queue3''"
    "t_pc (tasks late_nil_handler_state ! 0) = THandler" "\<not> crashed late_nil_handler_state"
    "caller late_nil_handler_state \<noteq> Receiving"
    by (simp_all add: late_nil_defs)
  have u: "late_nil_handler_state\<lparr>tasks := (tasks late_nil_handler_state)
      [0 := (tasks late_nil_handler_state ! 0)\<lparr>t_pc := TRecover nil_dereference\<rparr>]\<rparr>
      = late_nil_handler_panicked"
    using nil_handler_recovered [OF s w r' f'(1,2,3,4) run.simps(1)]
    by (simp add: late_nil_handler_panicked_def)
  have e': "run schedule_sibling
      (late_nil_handler_state\<lparr>tasks := (tasks late_nil_handler_state)
        [0 := (tasks late_nil_handler_state ! 0)\<lparr>t_pc := TRecover nil_dereference\<rparr>]\<rparr>)
      = Some (the (run schedule_sibling late_nil_handler_panicked))"
    unfolding u by (simp add: late_nil_defs)
  from nil_handler_recovered [OF s w r' f'(1,2,3,4) e'] f'(5) u
  have b: "step (Deliver (Dispatch 0)) late_nil_handler_panicked = None"
    "pending (Dispatch 0) (the (run schedule_sibling late_nil_handler_panicked))
      = Some nil_dereference"
    by simp_all
  from r' have n1: "run schedule_late_nil_handler (Subscribe example_registered example_order) \<noteq> None"
    by simp
  from e' [unfolded u] have n2: "run schedule_sibling late_nil_handler_panicked \<noteq> None"
    by (metis option.distinct(1))
  from s n0 f(2,3,5) h p d n1 f'(5) n2 b show ?thesis by blast
qed

text \<open>
  The claim C9 as stated, at a schedule: the fetch of the first queue fails and
  \<^verbatim>\<open>Subscribe\<close> returns that error; then a message of the queue with the nil handler is
  dispatched. The panic is recovered, but its error cannot be delivered: the goroutine
  stays in its deferred function, before \<^verbatim>\<open>wgMessage.Done()\<close> and with its permit, and
  the only value ever received from \<^verbatim>\<open>chFatal\<close> is the fetch error.
\<close>

theorem nil_handler_recovered_counterexample:
  "SetHandler (example_subscriber 1) ''Queue3'' None (Some \<lparr>WaitTime = 0\<rparr>)
     = Returns (example_registered, None)
   \<and> run schedule_late_nil_handler (Subscribe example_registered example_order) \<noteq> None
   \<and> queueName (polls late_nil_handler_state ! t_owner (tasks late_nil_handler_state ! 0)) = ''Queue3''
   \<and> handler (t_handler (tasks late_nil_handler_state ! 0)) = None
   \<and> caller late_nil_handler_state = Returned (Some ''fetch failed'')
   \<and> step (Invoke 0) late_nil_handler_state \<noteq> None
   \<and> t_pc (tasks late_nil_handler_panicked ! 0) = TRecover nil_dereference
   \<and> step (Deliver (Dispatch 0)) late_nil_handler_panicked = None
   \<and> step (Done 0) late_nil_handler_panicked = None
   \<and> step (Release 0) late_nil_handler_panicked = None
   \<and> buf (semaphore (recv late_nil_handler_panicked)) = [1]
   \<and> fatals (trace late_nil_handler_panicked) = [(Poll 0, ''fetch failed'')]"
  by (simp add: late_nil_defs SetHandler_def fatals_def)

text \<open>
  C10, amended. As stated the claim fails: once \<^verbatim>\<open>Subscribe\<close> has returned an earlier
  error, the error of the failed lookup is never delivered and the first goroutine never
  returns (the schedule is given after the witness). What holds: when
  \<^verbatim>\<open>GetQueueID\<close> returns an error for the next name of the \<^verbatim>\<open>range\<close>, the first
  goroutine stands at the send of that error on \<^verbatim>\<open>chFatal\<close> and has started no poll
  loop for the name; whatever happens afterwards, the list of poll loop goroutines stays
  the one started before, so none is ever started for that name or for a name still to
  come. While the caller of \<^verbatim>\<open>Subscribe\<close> is still blocked the send goes through, the
  caller returns that error and the first goroutine has returned. When the caller has
  already returned, the send cannot go through, and in every continuation the first
  goroutine is still blocked at that send and the caller's result is unchanged.
\<close>

theorem resolve_failure_stops_spawning:
  assumes "run acts (Subscribe t order) = Some s" and "distinct order"
    and "spawner s = SpRange (name # rest)"
    and "step (Resolve (Returns (Inl err))) s = Some s1"
    and "run acts' s1 = Some s2"
  shows "pending Spawner s1 = Some err
    \<and> polls s1 = polls s
    \<and> map queueName (polls s2) = map queueName (polls s)
    \<and> set (name # rest) \<inter> set (map queueName (polls s2)) = {}
    \<and> (caller s1 = Receiving \<longrightarrow>
          map_option (\<lambda>s'. (caller s', spawner s')) (step (Deliver Spawner) s1)
            = Some (Returned (Some err), SpDone))
    \<and> (caller s1 \<noteq> Receiving \<longrightarrow>
          step (Deliver Spawner) s1 = None \<and> spawner s2 = SpSend err \<and> caller s2 = caller s1)"
proof -
  from invariant_run [OF assms(1)] have r: "ranging order s" by (simp add: invariant_def)
  from assms(3,4) have s1: "spawner s1 = SpSend err" "polls s1 = polls s" "\<not> crashed s1"
    by (auto simp: step_def resolve_def split: if_splits option.splits)
  then have p: "pending Spawner s1 = Some err" by (simp add: pending_def)
  from s1 have "\<forall>rest. spawner s1 \<noteq> SpRange rest" by simp
  from spawner_stopped_run [OF assms(5) this] s1
  have m: "map queueName (polls s2) = map queueName (polls s)" by simp
  from r assms(3) have "lookups (trace s) = started (polls s)"
    and dr: "name # rest = drop (length (polls s)) order"
    and tk: "take (length (lookups (trace s))) order = map fst (lookups (trace s))"
    by (auto simp: ranging_def)
  then have "map queueName (polls s) = take (length (polls s)) order"
    by (simp add: started_def comp_def)
  with dr have "order = map queueName (polls s) @ name # rest"
    by (metis append_take_drop_id)
  with assms(2) have "set (name # rest) \<inter> set (map queueName (polls s)) = {}"
    by (metis distinct_append inf_commute)
  with m have dj: "set (name # rest) \<inter> set (map queueName (polls s2)) = {}" by simp
  have dl: "map_option (\<lambda>s'. (caller s', spawner s')) (step (Deliver Spawner) s1)
      = Some (Returned (Some err), SpDone)" if "caller s1 = Receiving"
    using that s1 by (simp add: step_def deliver_def pending_def sent_def)
  have b: "step (Deliver Spawner) s1 = None \<and> spawner s2 = SpSend err \<and> caller s2 = caller s1"
    if "caller s1 \<noteq> Receiving"
  proof -
    from that obtain v where v: "caller s1 = Returned v" by (cases "caller s1") simp_all
    then have "step (Deliver Spawner) s1 = None"
      by (simp add: step_def deliver_def split: option.splits)
    moreover from spawner_blocked_run [OF assms(5) v s1(1)] have "spawner s2 = SpSend err" .
    moreover from caller_run [OF assms(5) v] v have "caller s2 = caller s1" by simp
    ultimately show ?thesis by simp
  qed
  from p s1(2) m dj dl b show ?thesis by simp
qed

theorem resolve_failure_stops_spawning_witness:
  "run schedule_first_queue example_start \<noteq> None
   \<and> distinct example_order
   \<and> spawner (after schedule_first_queue) = SpRange [''Queue2'', ''Queue3'']
   \<and> step (Resolve (Returns (Inl ''no queue''))) (after schedule_first_queue) \<noteq> None
   \<and> run schedule_carry_on resolve_failed_state \<noteq> None
   \<and> pending Spawner resolve_failed_state = Some ''no queue''
   \<and> map queueName (polls (the (run schedule_carry_on resolve_failed_state))) = [''Queue1'']
   \<and> caller resolve_failed_state = Receiving
   \<and> map_option (\<lambda>s'. (caller s', spawner s')) (step (Deliver Spawner) resolve_failed_state)
        = Some (Returned (Some ''no queue''), SpDone)
   \<and> run schedule_late_resolve example_start \<noteq> None
   \<and> spawner (after schedule_late_resolve) = SpRange [''Queue3'']
   \<and> step (Resolve (Returns (Inl ''no queue''))) (after schedule_late_resolve) \<noteq> None
   \<and> run schedule_other_queue late_resolve_state \<noteq> None
   \<and> caller late_resolve_state \<noteq> Receiving
   \<and> step (Deliver Spawner) late_resolve_state = None
   \<and> spawner (the (run schedule_other_queue late_resolve_state)) = SpSend ''no queue''
   \<and> map queueName (polls (the (run schedule_other_queue late_resolve_state)))
        = [''Queue1'', ''Queue2'']"
proof -
  have r: "run schedule_first_queue (Subscribe (example_subscriber 1) example_order)
      = Some (after schedule_first_queue)"
    by (simp add: schedule_first_queue_def eval_defs)
  have d: "distinct example_order" by (simp add: example_order_def)
  have sp: "spawner (after schedule_first_queue) = SpRange [''Queue2'', ''Queue3'']"
    "map queueName (polls (after schedule_first_queue)) = [''Queue1'']"
    by (simp_all add: schedule_first_queue_def eval_defs)
  have st: "step (Resolve (Returns (Inl ''no queue''))) (after schedule_first_queue)
      = Some resolve_failed_state"
    by (simp add: resolve_failed_state_def schedule_first_queue_def eval_defs)
  have r2: "run schedule_carry_on resolve_failed_state
      = Some (the (run schedule_carry_on resolve_failed_state))"
    by (simp add: schedule_carry_on_def resolve_failed_state_def schedule_first_queue_def eval_defs)
  have c: "caller resolve_failed_state = Receiving"
    by (simp add: resolve_failed_state_def schedule_first_queue_def eval_defs)
  note n = resolve_failure_stops_spawning [OF r d sp(1) st r2]
  from n have p: "pending Spawner resolve_failed_state = Some ''no queue''" by blast
  from n sp(2) have m: "map queueName (polls (the (run schedule_carry_on resolve_failed_state)))
      = [''Queue1'']" by simp
  from n c have dl: "map_option (\<lambda>s'. (caller s', spawner s')) (step (Deliver Spawner) resolve_failed_state)
      = Some (Returned (Some ''no queue''), SpDone)" by blast
  from r have n0: "run schedule_first_queue example_start \<noteq> None"
    by (simp add: example_start_def)
  from st have n1: "step (Resolve (Returns (Inl ''no queue''))) (after schedule_first_queue) \<noteq> None"
    by simp
  from r2 have n2: "run schedule_carry_on resolve_failed_state \<noteq> None"
    by (metis option.distinct(1))
  have r': "run schedule_late_resolve (Subscribe (example_subscriber 1) example_order)
      = Some (after schedule_late_resolve)"
    by (simp add: late_resolve_defs)
  have sp': "spawner (after schedule_late_resolve) = SpRange [''Queue3'']"
    "map queueName (polls (after schedule_late_resolve)) = [''Queue1'', ''Queue2'']"
    by (simp_all add: late_resolve_defs)
  have st': "step (Resolve (Returns (Inl ''no queue''))) (after schedule_late_resolve)
      = Some late_resolve_state"
    by (simp add: late_resolve_defs)
  have r2': "run schedule_other_queue late_resolve_state
      = Some (the (run schedule_other_queue late_resolve_state))"
    by (simp add: late_resolve_defs)
  have c': "caller late_resolve_state \<noteq> Receiving"
    by (simp add: late_resolve_defs)
  note n' = resolve_failure_stops_spawning [OF r' d sp'(1) st' r2']
  from n' c' have b: "step (Deliver Spawner) late_resolve_state = None"
    "spawner (the (run schedule_other_queue late_resolve_state)) = SpSend ''no queue''"
    by blast+
  from n' sp'(2) have m': "map queueName (polls (the (run schedule_other_queue late_resolve_state)))
      = [''Queue1'', ''Queue2'']" by simp
  from r' have n3: "run schedule_late_resolve example_start \<noteq> None"
    by (simp add: example_start_def)
  from st' have n4: "step (Resolve (Returns (Inl ''no queue''))) (after schedule_late_resolve) \<noteq> None"
    by simp
  from r2' have n5: "run schedule_other_queue late_resolve_state \<noteq> None"
    by (metis option.distinct(1))
  from n0 d sp(1) n1 n2 p m c dl n3 sp'(1) n4 n5 c' b m' show ?thesis by blast
qed

text \<open>
  The claim C10 as stated, at a schedule: two queues are resolved, the fetch of the first
  fails and \<^verbatim>\<open>Subscribe\<close> returns that error; then the lookup of the third queue fails.
  The first goroutine is blocked at its send and has not returned, also after the second
  poll loop has carried on, and the only value ever received from \<^verbatim>\<open>chFatal\<close> is the
  fetch error.
\<close>

theorem resolve_failure_stops_spawning_counterexample:
  "run schedule_late_resolve example_start \<noteq> None
   \<and> spawner (after schedule_late_resolve) = SpRange [''Queue3'']
   \<and> caller (after schedule_late_resolve) = Returned (Some ''fetch failed'')
   \<and> step (Resolve (Returns (Inl ''no queue''))) (after schedule_late_resolve) \<noteq> None
   \<and> spawner late_resolve_state = SpSend ''no queue''
   \<and> step (Deliver Spawner) late_resolve_state = None
   \<and> caller late_resolve_state = Returned (Some ''fetch failed'')
   \<and> fatals (trace late_resolve_state) = [(Poll 0, ''fetch failed'')]
   \<and> run schedule_other_queue late_resolve_state \<noteq> None
   \<and> spawner (the (run schedule_other_queue late_resolve_state)) = SpSend ''no queue''
   \<and> fatals (trace (the (run schedule_other_queue late_resolve_state))) = [(Poll 0, ''fetch failed'')]"
  by (simp add: late_resolve_defs fatals_def)

end
